theory Spec2Isabelle
  imports Main "HOL-Library.AList"
begin

section \<open>Data model\<close>

text \<open>
  The graph keeps its index, and the queries their bookkeeping, in plain objects
  (\<open>{}\<close>), which inherit from \<open>Object.prototype\<close>: for the name of a property that
  \<open>Object.prototype\<close> holds, a lookup on such an object finds the inherited property
  although the object has none of its own. \<open>object_prototype\<close> are these names, for
  an \<open>Object.prototype\<close> as the language defines it.
\<close>

definition object_prototype :: "string list" where
  "object_prototype =
     [''constructor'', ''__defineGetter__'', ''__defineSetter__'', ''hasOwnProperty'',
      ''__lookupGetter__'', ''__lookupSetter__'', ''isPrototypeOf'', ''propertyIsEnumerable'',
      ''toString'', ''valueOf'', ''__proto__'', ''toLocaleString'']"

text \<open>
  A \<open>key\<close> is a string that is none of these names. For a key, a plain object is
  the finite map of its own properties, and that is how the objects of the graph are
  modelled. Cell identifiers and attribute names are keys. What the code does with an
  identifier that \<open>Object.prototype\<close> holds is not modelled: it writes the edges of
  such an identifier on the inherited object (\<open>Object\<close> for \<open>constructor\<close>,
  \<open>Object.prototype\<close> itself for \<open>__proto__\<close>), which every plain object there is
  shares and which no reset of the index clears, and it takes such an identifier for
  visited in the searches before any cell was visited. Nor is an attribute of such a
  name (the assignment under \<open>__proto__\<close> makes no property). The names of batches
  are not restricted: the batch tracker below is modelled for every string.
  \<open>key_of s\<close> is the key that is the string \<open>s\<close>, \<open>Rep_key k\<close> the string that
  a key is.
\<close>

typedef key = "{s :: string. s \<notin> set object_prototype}"
  by (intro exI [of _ "[]"]) (simp add: object_prototype_def)

definition key_of :: "string \<Rightarrow> key" where
  "key_of s = Abs_key s"

text \<open>
  Cell identifiers are keys. A link endpoint is an object that may carry an \<open>id\<close>
  (a reference to another cell) or coordinates (a free point); \<open>NoEnd\<close> is the
  empty object \<open>{}\<close> that a link has for an endpoint nobody set. A cell is either an
  element or a link (the classes whose \<open>isLink()\<close> answers false and true); a link
  always carries its \<open>source\<close> and \<open>target\<close> endpoint, an element has neither
  attribute (an attribute \<open>source\<close> or \<open>target\<close> that an element was given, and
  that the graph never reads, is not represented). The attributes other than \<open>id\<close>,
  \<open>source\<close> and \<open>target\<close> are an insertion-ordered association list, as the keys
  of a JavaScript object are (keys that are array indices, which the engine puts first,
  are not told apart: nothing below depends on the order).
\<close>

type_synonym cid = key

datatype endpoint = NoEnd | Point int int | Ref cid

datatype val = Str string | Num int

type_synonym attrs = "(key \<times> val) list"

datatype cell = Element cid attrs | Link cid endpoint endpoint attrs

fun cell_id :: "cell \<Rightarrow> cid" where
  "cell_id (Element i a) = i"
| "cell_id (Link i s t a) = i"

fun isLink :: "cell \<Rightarrow> bool" where
  "isLink (Element i a) = False"
| "isLink (Link i s t a) = True"

definition isElement :: "cell \<Rightarrow> bool" where
  "isElement c = (\<not> isLink c)"

fun attributes :: "cell \<Rightarrow> attrs" where
  "attributes (Element i a) = a"
| "attributes (Link i s t a) = a"

text \<open>
  \<open>endpoint_id e\<close> is the value of \<open>e.id\<close> when the test \<open>if (e.id)\<close> passes: the
  empty string is falsy in JavaScript, as a missing \<open>id\<close> is. \<open>has_id e\<close> is
  \<open>util.has(e, 'id')\<close>, which only asks whether the property is there.
\<close>

fun endpoint_id :: "endpoint \<Rightarrow> cid option" where
  "endpoint_id (Ref i) = (if Rep_key i = [] then None else Some i)"
| "endpoint_id NoEnd = None"
| "endpoint_id (Point x y) = None"

fun has_id :: "endpoint \<Rightarrow> bool" where
  "has_id (Ref i) = True"
| "has_id NoEnd = False"
| "has_id (Point x y) = False"

fun source_id :: "cell \<Rightarrow> cid option" where
  "source_id (Link i s t a) = endpoint_id s"
| "source_id (Element i a) = None"

fun target_id :: "cell \<Rightarrow> cid option" where
  "target_id (Link i s t a) = endpoint_id t"
| "target_id (Element i a) = None"

text \<open>
  The adjacency list: the four structures \<open>_out\<close>, \<open>_in\<close>, \<open>_nodes\<close> and
  \<open>_edges\<close> of the graph, plain objects whose property names are keys. A bucket
  \<open>_out[nodeId]\<close> is an object whose keys are edge ids; it is modelled by the list
  of its keys in insertion order, which is the order \<open>util.forIn\<close> visits them in
  (but for ids that are array indices, which the engine visits first; no general
  statement below depends on the order of a bucket).
\<close>

record adjacency =
  al_out :: "cid \<Rightarrow> cid list option"
  al_in :: "cid \<Rightarrow> cid list option"
  al_nodes :: "cid set"
  al_edges :: "cid set"

definition empty_al :: adjacency where
  "empty_al = \<lparr> al_out = Map.empty, al_in = Map.empty, al_nodes = {}, al_edges = {} \<rparr>"

text \<open>
  The values that the object \<open>_batches\<close> can hold or hand out under a name: a number,
  \<open>NaN\<close>, a string that is not the text of a number (\<open>Text\<close>), \<open>undefined\<close>
  for a name with no property, and the property that \<open>Object.prototype\<close> holds under
  the name, a function or an object (\<open>Inherited\<close>).
\<close>

datatype jsval = Undefined | Number int | NaN | Text | Inherited

text \<open>
  The graph: the cell collection (\<open>cellCollection.models\<close>, keyed by id), the
  adjacency list, the own properties of the object \<open>_batches\<close> (from batch name to
  value) and the \<open>batch:start\<close> / \<open>batch:stop\<close> notifications triggered so far.
\<close>

datatype notification = BatchStart string | BatchStop string

record graph =
  cells :: "cell list"
  al :: adjacency
  batches :: "(string \<times> jsval) list"
  notifications :: "notification list"

definition empty_graph :: graph where
  "empty_graph = \<lparr> cells = [], al = empty_al, batches = [], notifications = [] \<rparr>"

section \<open>Adjacency list maintenance\<close>

text \<open>
  \<open>bucket m k\<close> is \<open>m[k] || {}\<close>; \<open>put_key k b\<close> is \<open>b[k] = true\<close>;
  \<open>bucket_add m s l\<close> is \<open>(m[s] || (m[s] = {}))[l] = true\<close>;
  \<open>bucket_delete m s l\<close> is \<open>delete m[s][l]\<close> for a bucket \<open>m[s]\<close> that exists.
\<close>

definition bucket :: "(cid \<Rightarrow> cid list option) \<Rightarrow> cid \<Rightarrow> cid list" where
  "bucket m k = (case m k of None \<Rightarrow> [] | Some b \<Rightarrow> b)"

definition put_key :: "cid \<Rightarrow> cid list \<Rightarrow> cid list" where
  "put_key k b = (if k \<in> set b then b else b @ [k])"

definition bucket_add :: "(cid \<Rightarrow> cid list option) \<Rightarrow> cid \<Rightarrow> cid \<Rightarrow> (cid \<Rightarrow> cid list option)" where
  "bucket_add m s l = m(s \<mapsto> put_key l (bucket m s))"

definition bucket_delete :: "(cid \<Rightarrow> cid list option) \<Rightarrow> cid \<Rightarrow> cid \<Rightarrow> (cid \<Rightarrow> cid list option)" where
  "bucket_delete m s l = (case m s of None \<Rightarrow> m | Some b \<Rightarrow> m(s \<mapsto> removeAll l b))"

fun restructureOnAdd :: "cell \<Rightarrow> adjacency \<Rightarrow> adjacency" where
  "restructureOnAdd (Link i s t a) x =
     (let x1 = x\<lparr> al_edges := insert i (al_edges x) \<rparr>;
          x2 = (case endpoint_id s of
                  Some sid \<Rightarrow> x1\<lparr> al_out := bucket_add (al_out x1) sid i \<rparr>
                | None \<Rightarrow> x1)
      in (case endpoint_id t of
            Some tid \<Rightarrow> x2\<lparr> al_in := bucket_add (al_in x2) tid i \<rparr>
          | None \<Rightarrow> x2))"
| "restructureOnAdd (Element i a) x = x\<lparr> al_nodes := insert i (al_nodes x) \<rparr>"

fun restructureOnRemove :: "cell \<Rightarrow> adjacency \<Rightarrow> adjacency" where
  "restructureOnRemove (Link i s t a) x =
     (let x1 = x\<lparr> al_edges := al_edges x - {i} \<rparr>;
          x2 = (case endpoint_id s of
                  Some sid \<Rightarrow>
                    (if al_out x1 sid \<noteq> None \<and> i \<in> set (bucket (al_out x1) sid)
                     then x1\<lparr> al_out := bucket_delete (al_out x1) sid i \<rparr> else x1)
                | None \<Rightarrow> x1)
      in (case endpoint_id t of
            Some tid \<Rightarrow>
              (if al_in x2 tid \<noteq> None \<and> i \<in> set (bucket (al_in x2) tid)
               then x2\<lparr> al_in := bucket_delete (al_in x2) tid i \<rparr> else x2)
          | None \<Rightarrow> x2))"
| "restructureOnRemove (Element i a) x = x\<lparr> al_nodes := al_nodes x - {i} \<rparr>"

text \<open>
  \<open>_restructureOnReset\<close> throws the four structures away and replays
  \<open>_restructureOnAdd\<close> over \<open>collection.models\<close>.
\<close>

definition restructureOnReset :: "cell list \<Rightarrow> adjacency \<Rightarrow> adjacency" where
  "restructureOnReset models x = fold restructureOnAdd models empty_al"

text \<open>
  The two endpoint handlers get the link's id, \<open>link.previous('source')\<close> (the
  endpoint before the change) and the endpoint the link has now.
\<close>

definition restructureOnChangeSource :: "cid \<Rightarrow> endpoint \<Rightarrow> endpoint \<Rightarrow> adjacency \<Rightarrow> adjacency" where
  "restructureOnChangeSource link_id prevSource src x =
     (let x1 = (case endpoint_id prevSource of
                  Some p \<Rightarrow> x\<lparr> al_out := bucket_delete (al_out x) p link_id \<rparr>
                | None \<Rightarrow> x)
      in (case endpoint_id src of
            Some sid \<Rightarrow> x1\<lparr> al_out := bucket_add (al_out x1) sid link_id \<rparr>
          | None \<Rightarrow> x1))"

definition restructureOnChangeTarget :: "cid \<Rightarrow> endpoint \<Rightarrow> endpoint \<Rightarrow> adjacency \<Rightarrow> adjacency" where
  "restructureOnChangeTarget link_id prevTarget tgt x =
     (let x1 = (case endpoint_id prevTarget of
                  Some p \<Rightarrow> x\<lparr> al_in := bucket_delete (al_in x) p link_id \<rparr>
                | None \<Rightarrow> x)
      in (case endpoint_id tgt of
            Some tid \<Rightarrow> x1\<lparr> al_in := bucket_add (al_in x1) tid link_id \<rparr>
          | None \<Rightarrow> x1))"

definition getOutboundEdges :: "graph \<Rightarrow> cid \<Rightarrow> cid list" where
  "getOutboundEdges g node = bucket (al_out (al g)) node"

definition getInboundEdges :: "graph \<Rightarrow> cid \<Rightarrow> cid list" where
  "getInboundEdges g node = bucket (al_in (al g)) node"

section \<open>The cell collection\<close>

text \<open>
  Modelled from the spec: the observable cell collection (\<open>GraphCells\<close>, an mvc
  collection whose code is not part of the sources at hand). It is an ordered store
  keyed by id: \<open>get\<close> finds the model with an id, \<open>add\<close> appends a model whose id
  is new and fires \<open>add\<close> (a model whose id is taken is skipped, and nothing
  fires), the silent \<open>remove\<close> drops the model and fires nothing, and \<open>reset\<close>
  replaces the models by the given ones (the first of two with one id stays) and fires
  \<open>reset\<close>. The graph's listeners of these events are the handlers above.
\<close>

definition getCell :: "graph \<Rightarrow> cid \<Rightarrow> cell option" where
  "getCell g i = find (\<lambda>c. cell_id c = i) (cells g)"

definition insert_model :: "cell \<Rightarrow> cell list \<Rightarrow> cell list" where
  "insert_model c ms = (if cell_id c \<in> cell_id ` set ms then ms else ms @ [c])"

definition collection_add :: "cell \<Rightarrow> graph \<Rightarrow> graph" where
  "collection_add c g =
     (if cell_id c \<in> cell_id ` set (cells g) then g
      else g\<lparr> cells := cells g @ [c], al := restructureOnAdd c (al g) \<rparr>)"

definition collection_remove :: "cid \<Rightarrow> graph \<Rightarrow> graph" where
  "collection_remove i g = g\<lparr> cells := filter (\<lambda>c. cell_id c \<noteq> i) (cells g) \<rparr>"

definition collection_reset :: "cell list \<Rightarrow> graph \<Rightarrow> graph" where
  "collection_reset cs g =
     (let models = fold insert_model cs []
      in g\<lparr> cells := models, al := restructureOnReset models (al g) \<rparr>)"

section \<open>Batch tracker\<close>

text \<open>
  \<open>_batches\<close> is a plain object and the name of a batch is any string, so the reads
  and the write of \<open>this._batches[name] = (this._batches[name] || 0) + 1\<close> are spelled
  out. \<open>lookup bs name\<close> is \<open>this._batches[name]\<close>: the own property, else the
  inherited one, else \<open>undefined\<close>. \<open>or_zero v\<close> is \<open>v || 0\<close> (\<open>undefined\<close>,
  0 and \<open>NaN\<close> are falsy). \<open>plus_one\<close> and \<open>minus_one\<close> are \<open>+ 1\<close> and
  \<open>- 1\<close>: adding 1 to a function, an object or a string gives a string, taking 1
  away from them gives \<open>NaN\<close>. \<open>store\<close> is the assignment: it makes or overwrites
  the own property, except under \<open>__proto__\<close>, where the assignment of a value that is
  no object does nothing. \<open>counter bs name\<close> is \<open>this._batches[name] || 0\<close>, and
  \<open>positive v\<close> is \<open>v > 0\<close>, which is false for everything but a positive number.
\<close>

definition lookup :: "(string \<times> jsval) list \<Rightarrow> string \<Rightarrow> jsval" where
  "lookup bs name =
     (case map_of bs name of
        Some v \<Rightarrow> v
      | None \<Rightarrow> if name \<in> set object_prototype then Inherited else Undefined)"

fun or_zero :: "jsval \<Rightarrow> jsval" where
  "or_zero Undefined = Number 0"
| "or_zero (Number n) = Number n"
| "or_zero NaN = Number 0"
| "or_zero Text = Text"
| "or_zero Inherited = Inherited"

fun plus_one :: "jsval \<Rightarrow> jsval" where
  "plus_one (Number n) = Number (n + 1)"
| "plus_one Text = Text"
| "plus_one Inherited = Text"
| "plus_one NaN = NaN"
| "plus_one Undefined = NaN"

fun minus_one :: "jsval \<Rightarrow> jsval" where
  "minus_one (Number n) = Number (n - 1)"
| "minus_one Text = NaN"
| "minus_one Inherited = NaN"
| "minus_one NaN = NaN"
| "minus_one Undefined = NaN"

definition store :: "string \<Rightarrow> jsval \<Rightarrow> (string \<times> jsval) list \<Rightarrow> (string \<times> jsval) list" where
  "store name v bs = (if name = ''__proto__'' then bs else AList.update name v bs)"

definition counter :: "(string \<times> jsval) list \<Rightarrow> string \<Rightarrow> jsval" where
  "counter bs name = or_zero (lookup bs name)"


definition startBatch :: "string \<Rightarrow> graph \<Rightarrow> graph" where
  "startBatch name g =
     g\<lparr> batches := store name (plus_one (counter (batches g) name)) (batches g),
        notifications := notifications g @ [BatchStart name] \<rparr>"

definition stopBatch :: "string \<Rightarrow> graph \<Rightarrow> graph" where
  "stopBatch name g =
     g\<lparr> batches := store name (minus_one (counter (batches g) name)) (batches g),
        notifications := notifications g @ [BatchStop name] \<rparr>"





text \<open>
  How an operation ends: it returns with the graph it left, an exception leaves it with
  the graph as it was at the throw, or the budget of nested calls (the \<open>fuel\<close> of the
  recursive removal below) ran out before it ended.
\<close>

datatype error = TypeError

datatype outcome = Done graph | Throw error graph | OutOfFuel

primrec fold_outcome :: "('a \<Rightarrow> graph \<Rightarrow> outcome) \<Rightarrow> 'a list \<Rightarrow> graph \<Rightarrow> outcome" where
  "fold_outcome f [] g = Done g"
| "fold_outcome f (x # xs) g =
     (case f x g of Done g' \<Rightarrow> fold_outcome f xs g' | Throw e g' \<Rightarrow> Throw e g' | OutOfFuel \<Rightarrow> OutOfFuel)"

text \<open>
  Modelled from the spec: \<open>link.set('source', e)\<close> and \<open>link.set('target', e)\<close> of
  the model class (not part of the sources at hand). Setting an attribute to the value
  it has changes nothing and fires nothing; otherwise the attribute is stored and
  \<open>change:source\<close> (\<open>change:target\<close>) fires, which the graph answers with the
  handler above. An element has no such attribute, so for an element the handler reads
  \<open>.id\<close> of the \<open>undefined\<close> previous value and throws (the attribute the element
  gained is not represented in the graph of that outcome). A model that is in no graph
  fires nothing there.
\<close>

datatype side = Source | Target

definition replace_model :: "cell \<Rightarrow> cell list \<Rightarrow> cell list" where
  "replace_model c ms = map (\<lambda>d. if cell_id d = cell_id c then c else d) ms"

definition link_set :: "side \<Rightarrow> endpoint \<Rightarrow> cid \<Rightarrow> graph \<Rightarrow> outcome" where
  "link_set sd e i g =
     (case getCell g i of
        None \<Rightarrow> Done g
      | Some (Element j a) \<Rightarrow> Throw TypeError g
      | Some (Link j s t a) \<Rightarrow>
          (case sd of
             Source \<Rightarrow>
               (if s = e then Done g
                else Done (g\<lparr> cells := replace_model (Link j e t a) (cells g),
                              al := restructureOnChangeSource j s e (al g) \<rparr>))
           | Target \<Rightarrow>
               (if t = e then Done g
                else Done (g\<lparr> cells := replace_model (Link j s e a) (cells g),
                              al := restructureOnChangeTarget j t e (al g) \<rparr>))))"

section \<open>Connected links\<close>

text \<open>
  The options of the queries: \<open>inbound\<close> and \<open>outbound\<close>, each \<open>undefined\<close>
  (\<open>None\<close>), true or false. The model covers the calls that leave \<open>indirect\<close> and
  \<open>deep\<close> unset (links of links and embedded cells are not followed).
\<close>

record query_opt =
  inbound :: "bool option"
  outbound :: "bool option"

definition default_query :: query_opt where
  "default_query = \<lparr> inbound = None, outbound = None \<rparr>"

text \<open>The pair \<open>(inbound, outbound)\<close> after "both undefined means both".\<close>

definition directions :: "query_opt \<Rightarrow> bool \<times> bool" where
  "directions opt =
     (if inbound opt = None \<and> outbound opt = None then (True, True)
      else (inbound opt = Some True, outbound opt = Some True))"

text \<open>
  The body of the two \<open>util.forIn\<close> loops: an edge already in \<open>edges\<close> (a plain
  object whose property names are edge ids, hence keys) is skipped,
  another one has \<open>graph.getCell(edge)\<close> pushed on \<open>links\<close> (\<open>None\<close> is the
  \<open>undefined\<close> that \<open>getCell\<close> answers for an id with no cell).
\<close>

definition addEdge :: "graph \<Rightarrow> cid \<Rightarrow> cell option list \<times> cid set \<Rightarrow> cell option list \<times> cid set" where
  "addEdge g edge st =
     (case st of (links, edges) \<Rightarrow>
        if edge \<in> edges then (links, edges) else (links @ [getCell g edge], insert edge edges))"

definition addOutbounds :: "graph \<Rightarrow> cell \<Rightarrow> cell option list \<times> cid set \<Rightarrow> cell option list \<times> cid set" where
  "addOutbounds g model st = fold (addEdge g) (getOutboundEdges g (cell_id model)) st"

definition addInbounds :: "graph \<Rightarrow> cell \<Rightarrow> cell option list \<times> cid set \<Rightarrow> cell option list \<times> cid set" where
  "addInbounds g model st = fold (addEdge g) (getInboundEdges g (cell_id model)) st"

definition getConnectedLinks :: "graph \<Rightarrow> cell \<Rightarrow> query_opt \<Rightarrow> cell option list" where
  "getConnectedLinks g model opt =
     (case directions opt of (inb, outb) \<Rightarrow>
        (let st0 = ([], {});
             st1 = (if outb then addOutbounds g model st0 else st0);
             st2 = (if inb then addInbounds g model st1 else st1)
         in fst st2))"

section \<open>Removal\<close>

text \<open>The options a removal looks at: \<open>clear\<close> and \<open>disconnectLinks\<close>.\<close>

record remove_opt =
  opt_clear :: bool
  opt_disconnectLinks :: bool

text \<open>\<open>e.id\<close> as it is compared by \<open>===\<close>: the id of a reference, \<open>undefined\<close> otherwise.\<close>

fun raw_id :: "endpoint \<Rightarrow> cid option" where
  "raw_id (Ref i) = Some i"
| "raw_id NoEnd = None"
| "raw_id (Point x y) = None"

text \<open>
  One round of the loop of \<open>disconnectLinks\<close>: the link is read as it is now; an
  \<open>undefined\<close> entry of the array, or a cell without a \<open>source\<close>, makes
  \<open>link.attributes.source.id\<close> throw.
\<close>

definition disconnectLink :: "cell \<Rightarrow> cell option \<Rightarrow> graph \<Rightarrow> outcome" where
  "disconnectLink model entry g =
     (case entry of
        None \<Rightarrow> Throw TypeError g
      | Some l \<Rightarrow>
          (case getCell g (cell_id l) of
             None \<Rightarrow> Done g
           | Some (Element j a) \<Rightarrow> Throw TypeError g
           | Some (Link j s t a) \<Rightarrow>
               link_set (if raw_id s = Some (cell_id model) then Source else Target) (Point 0 0) j g))"

definition disconnectLinks :: "cell \<Rightarrow> graph \<Rightarrow> outcome" where
  "disconnectLinks model g =
     fold_outcome (disconnectLink model) (getConnectedLinks g model default_query) g"

text \<open>
  Modelled from the spec: \<open>cell.remove(opt)\<close> of the cell class (not part of the
  sources at hand) fires \<open>remove\<close> for a cell of the graph and does nothing to the
  graph for a cell that is in none; embedded cells are outside the model. The graph
  listens twice, in this order: \<open>_restructureOnRemove\<close>, then \<open>_removeCell\<close>.
  \<open>cell_remove\<close> is this removal for the cell with the given id, \<open>removeLinks\<close> is
  \<open>util.invoke(this.getConnectedLinks(model), 'remove', opt)\<close> and
  \<open>invoke_remove\<close> its loop over the array. The removals nest (a link's removal
  removes the links connected to that link); \<open>fuel\<close> bounds the depth of the nesting.
\<close>

fun cell_remove :: "nat \<Rightarrow> remove_opt \<Rightarrow> cid \<Rightarrow> graph \<Rightarrow> outcome"
  and removeCell :: "nat \<Rightarrow> remove_opt \<Rightarrow> cell \<Rightarrow> graph \<Rightarrow> outcome"
  and removeLinks :: "nat \<Rightarrow> remove_opt \<Rightarrow> cell \<Rightarrow> graph \<Rightarrow> outcome"
  and invoke_remove :: "nat \<Rightarrow> remove_opt \<Rightarrow> cell option list \<Rightarrow> graph \<Rightarrow> outcome"
where
  "cell_remove 0 opt i g = OutOfFuel"
| "cell_remove (Suc n) opt i g =
     (case getCell g i of
        None \<Rightarrow> Done g
      | Some c \<Rightarrow> removeCell n opt c (g\<lparr> al := restructureOnRemove c (al g) \<rparr>))"
| "removeCell n opt c g =
     (case (if \<not> opt_clear opt
            then (if opt_disconnectLinks opt then disconnectLinks c g else removeLinks n opt c g)
            else Done g) of
        Done g' \<Rightarrow> Done (collection_remove (cell_id c) g')
      | Throw e g' \<Rightarrow> Throw e g'
      | OutOfFuel \<Rightarrow> OutOfFuel)"
| "removeLinks n opt c g = invoke_remove n opt (getConnectedLinks g c default_query) g"
| "invoke_remove n opt [] g = Done g"
| "invoke_remove n opt (entry # entries) g =
     (case entry of
        None \<Rightarrow> Throw TypeError g
      | Some l \<Rightarrow>
          (case cell_remove n opt (cell_id l) g of
             Done g' \<Rightarrow> invoke_remove n opt entries g'
           | Throw e g' \<Rightarrow> Throw e g'
           | OutOfFuel \<Rightarrow> OutOfFuel))"

text \<open>
  \<open>clear\<close>: nothing happens for an empty collection; otherwise the links, then the
  elements (what \<open>sortBy\<close> with the keys 1 and 2 gives), are removed one by one with
  the option \<open>clear\<close> set, between the start and the stop of the batch \<open>clear\<close>.
\<close>

definition clear :: "nat \<Rightarrow> remove_opt \<Rightarrow> graph \<Rightarrow> outcome" where
  "clear fuel opt g =
     (let opt' = opt\<lparr> opt_clear := True \<rparr>
      in if length (cells g) = 0 then Done g
         else (case fold_outcome (\<lambda>c. cell_remove fuel opt' (cell_id c))
                      (filter isLink (cells g) @ filter (\<lambda>c. \<not> isLink c) (cells g))
                      (startBatch ''clear'' g) of
                 Done g' \<Rightarrow> Done (stopBatch ''clear'' g')
               | Throw e g' \<Rightarrow> Throw e g'
               | OutOfFuel \<Rightarrow> OutOfFuel))"

section \<open>Neighbours and searches\<close>

text \<open>
  Modelled from the spec: \<open>link.hasLoop(opt)\<close> of the link class (not part of the
  sources at hand), for \<open>deep\<close> unset: a self-loop is a link whose source and target
  carry the same id.
\<close>

fun hasLoop :: "cell \<Rightarrow> bool" where
  "hasLoop (Link i s t a) = (endpoint_id s \<noteq> None \<and> endpoint_id s = endpoint_id t)"
| "hasLoop (Element i a) = False"

primrec fold_err :: "('a \<Rightarrow> 'b \<Rightarrow> error + 'b) \<Rightarrow> 'a list \<Rightarrow> 'b \<Rightarrow> error + 'b" where
  "fold_err f [] r = Inr r"
| "fold_err f (x # xs) r = (case f x r of Inl e \<Rightarrow> Inl e | Inr r' \<Rightarrow> fold_err f xs r')"

text \<open>
  The accumulator \<open>res\<close> of \<open>getNeighbors\<close> is a plain object from id (a key) to
  cell that gets each key once; it is modelled by the list of its values in insertion order, which is
  what \<open>util.toArray\<close> returns. \<open>addNeighbor\<close> is one of the two blocks of the
  reducer, for the endpoint \<open>e\<close> of a link whose \<open>hasLoop\<close> is \<open>loop\<close>:
  \<open>getCell\<close> of an id with no cell is \<open>undefined\<close>, whose \<open>isElement()\<close> throws.
  The test \<open>sourceElement !== model\<close> compares two cells of one graph, which are the
  same object exactly when they have the same id.
\<close>

definition addNeighbor :: "graph \<Rightarrow> cell \<Rightarrow> bool \<Rightarrow> endpoint \<Rightarrow> cell list \<Rightarrow> error + cell list" where
  "addNeighbor g model loop e res =
     (case e of
        Ref i \<Rightarrow>
          (if i \<in> cell_id ` set res then Inr res
           else (case getCell g i of
                   None \<Rightarrow> Inl TypeError
                 | Some el \<Rightarrow>
                     (if isElement el
                      then (if loop \<or> cell_id el \<noteq> cell_id model then Inr (res @ [el]) else Inr res)
                      else Inr res)))
      | NoEnd \<Rightarrow> Inr res
      | Point x y \<Rightarrow> Inr res)"

definition neighborsOfLink :: "graph \<Rightarrow> cell \<Rightarrow> bool \<times> bool \<Rightarrow> cell option \<Rightarrow> cell list \<Rightarrow> error + cell list" where
  "neighborsOfLink g model dirs entry res =
     (case entry of
        None \<Rightarrow> Inl TypeError
      | Some (Element j a) \<Rightarrow> Inl TypeError
      | Some (Link j s t a) \<Rightarrow>
          (case (if fst dirs then addNeighbor g model (hasLoop (Link j s t a)) s res else Inr res) of
             Inl e \<Rightarrow> Inl e
           | Inr res1 \<Rightarrow>
               (if snd dirs then addNeighbor g model (hasLoop (Link j s t a)) t res1 else Inr res1)))"

text \<open>
  The end of \<open>getNeighbors\<close>, for a model that is a link: its own source and target
  cell (\<open>getSourceCell()\<close> is \<open>getCell\<close> of a truthy source id, else \<open>null\<close>).
\<close>

definition addOwnEnd :: "graph \<Rightarrow> endpoint \<Rightarrow> cell list \<Rightarrow> cell list" where
  "addOwnEnd g e res =
     (case endpoint_id e of
        None \<Rightarrow> res
      | Some i \<Rightarrow>
          (case getCell g i of
             None \<Rightarrow> res
           | Some el \<Rightarrow> if isElement el \<and> cell_id el \<notin> cell_id ` set res then res @ [el] else res))"

definition getNeighbors :: "graph \<Rightarrow> cell \<Rightarrow> query_opt \<Rightarrow> error + cell list" where
  "getNeighbors g model opt =
     (case fold_err (neighborsOfLink g model (directions opt)) (getConnectedLinks g model opt) [] of
        Inl e \<Rightarrow> Inl e
      | Inr neighbors \<Rightarrow>
          (case model of
             Element j a \<Rightarrow> Inr neighbors
           | Link j s t a \<Rightarrow>
               Inr (let n1 = (if fst (directions opt) then addOwnEnd g s neighbors else neighbors)
                    in (if snd (directions opt) then addOwnEnd g t n1 else n1))))"

text \<open>
  The searches. The iteratee is a function of the cell and its distance, read-only on
  the graph; its answer is \<open>False\<close> when it returns \<open>false\<close>. The result is the list
  of its calls, in order. \<open>visited\<close> and \<open>distance\<close> are plain objects whose
  property names are ids, hence keys: \<open>visited\<close> is the set of ids marked,
  \<open>distance\<close> the map from id to number (every cell in the queue has an entry).
\<close>

definition setDistances :: "cell \<Rightarrow> cell list \<Rightarrow> (cid \<Rightarrow> nat) \<Rightarrow> (cid \<Rightarrow> nat)" where
  "setDistances next neighbors distance =
     fold (\<lambda>neighbor d. d(cell_id neighbor := d (cell_id next) + 1)) neighbors distance"

text \<open>The neighbours are cells of the graph; the searches end because of that.\<close>

lemma getCell_in_cells: "getCell g i = Some c \<Longrightarrow> c \<in> set (cells g)"
  by (auto simp: getCell_def find_Some_iff)

lemma addNeighbor_subset:
  "addNeighbor g model loop e res = Inr res' \<Longrightarrow> set res \<subseteq> set (cells g) \<Longrightarrow> set res' \<subseteq> set (cells g)"
  by (auto simp: addNeighbor_def split: endpoint.splits option.splits if_splits dest: getCell_in_cells)

lemma neighborsOfLink_subset:
  "neighborsOfLink g model dirs entry res = Inr res' \<Longrightarrow> set res \<subseteq> set (cells g) \<Longrightarrow> set res' \<subseteq> set (cells g)"
  unfolding neighborsOfLink_def
  by (simp split: option.splits cell.splits sum.splits if_splits)
     (blast dest: addNeighbor_subset)+

lemma fold_err_subset:
  "fold_err (neighborsOfLink g model dirs) entries res = Inr res' \<Longrightarrow> set res \<subseteq> set (cells g)
   \<Longrightarrow> set res' \<subseteq> set (cells g)"
proof (induction entries arbitrary: res)
  case Nil
  then show ?case by simp
next
  case (Cons entry entries)
  then show ?case
    by (auto split: sum.splits dest: neighborsOfLink_subset)
qed

lemma addOwnEnd_subset: "set res \<subseteq> set (cells g) \<Longrightarrow> set (addOwnEnd g e res) \<subseteq> set (cells g)"
  by (auto simp: addOwnEnd_def split: option.splits dest: getCell_in_cells)

lemma getNeighbors_subset:
  assumes "getNeighbors g model opt = Inr ns"
  shows "set ns \<subseteq> set (cells g)"
proof -
  obtain r where r: "fold_err (neighborsOfLink g model (directions opt)) (getConnectedLinks g model opt) [] = Inr r"
    using assms by (auto simp: getNeighbors_def split: sum.splits)
  have rs: "set r \<subseteq> set (cells g)" using fold_err_subset [OF r] by simp
  show ?thesis
  proof (cases model)
    case (Element j a)
    then show ?thesis using assms r rs by (simp add: getNeighbors_def)
  next
    case (Link j s t a)
    then have "ns = (let n1 = (if fst (directions opt) then addOwnEnd g s r else r)
                    in (if snd (directions opt) then addOwnEnd g t n1 else n1))"
      using assms r by (simp add: getNeighbors_def)
    then show ?thesis using rs by (auto simp: Let_def dest!: addOwnEnd_subset [THEN subsetD, rotated])
  qed
qed

text \<open>
  The measure of the two searches: the ids of the cells of the graph and of the queue
  that are not visited yet.
\<close>

definition unvisited :: "graph \<Rightarrow> cell list \<Rightarrow> cid set \<Rightarrow> cid set" where
  "unvisited g queue visited = cell_id ` (set (cells g) \<union> set queue) - visited"

lemma finite_unvisited: "finite (unvisited g queue visited)"
  by (simp add: unvisited_def)

text \<open>
  \<open>bfs\<close>: the queue is taken from the front and the neighbours are pushed at the
  back.
\<close>

function bfs_loop :: "graph \<Rightarrow> (cell \<Rightarrow> nat \<Rightarrow> bool) \<Rightarrow> query_opt \<Rightarrow> cell list \<Rightarrow> cid set
    \<Rightarrow> (cid \<Rightarrow> nat) \<Rightarrow> (cell \<times> nat) list \<Rightarrow> error + (cell \<times> nat) list" where
  "bfs_loop g iteratee opt [] visited distance calls = Inr calls"
| "bfs_loop g iteratee opt (next # queue) visited distance calls =
     (if cell_id next \<in> visited then bfs_loop g iteratee opt queue visited distance calls
      else if \<not> iteratee next (distance (cell_id next))
      then bfs_loop g iteratee opt queue (insert (cell_id next) visited) distance
             (calls @ [(next, distance (cell_id next))])
      else (case getNeighbors g next opt of
              Inl e \<Rightarrow> Inl e
            | Inr neighbors \<Rightarrow>
                bfs_loop g iteratee opt (queue @ neighbors) (insert (cell_id next) visited)
                  (setDistances next neighbors distance) (calls @ [(next, distance (cell_id next))])))"
  by pat_completeness auto

termination bfs_loop
proof (relation "(\<lambda>(g, it, opt, queue, visited, d, c). card (unvisited g queue visited)) <*mlex*>
                 measure (\<lambda>(g, it, opt, queue, visited, d, c). length queue)", goal_cases)
  case 1
  then show ?case by (simp add: wf_mlex)
next
  case (2 g iteratee opt "next" queue visited distance calls)
  have "unvisited g queue visited \<subseteq> unvisited g (next # queue) visited"
    by (auto simp: unvisited_def)
  then have "card (unvisited g queue visited) \<le> card (unvisited g (next # queue) visited)"
    by (intro card_mono finite_unvisited)
  then show ?case by (auto intro!: mlex_leq)
next
  case (3 g iteratee opt "next" queue visited distance calls)
  have "unvisited g queue (insert (cell_id next) visited) \<subset> unvisited g (next # queue) visited"
    using 3(1) by (auto simp: unvisited_def)
  then show ?case by (auto intro!: mlex_less psubset_card_mono finite_unvisited)
next
  case (4 g iteratee opt "next" queue visited distance calls neighbors)
  have "set neighbors \<subseteq> set (cells g)" using getNeighbors_subset [OF 4(3)] .
  then have "unvisited g (queue @ neighbors) (insert (cell_id next) visited) \<subset> unvisited g (next # queue) visited"
    using 4(1) by (auto simp: unvisited_def)
  then show ?case by (auto intro!: mlex_less psubset_card_mono finite_unvisited)
qed


definition bfs :: "graph \<Rightarrow> cell \<Rightarrow> (cell \<Rightarrow> nat \<Rightarrow> bool) \<Rightarrow> query_opt \<Rightarrow> error + (cell \<times> nat) list" where
  "bfs g element iteratee opt = bfs_loop g iteratee opt [element] {} ((\<lambda>i. 0)(cell_id element := 0)) []"

text \<open>
  \<open>dfs\<close>: \<open>queue.pop()\<close> takes the last cell, and
  \<open>queue.splice(lastIndex, 0, neighbor)\<close>, with \<open>lastIndex\<close> the length after
  the pop, puts every neighbour in front of the ones put before it: the neighbours end
  up reversed at the end of the queue, the first of them last.
\<close>

function dfs_loop :: "graph \<Rightarrow> (cell \<Rightarrow> nat \<Rightarrow> bool) \<Rightarrow> query_opt \<Rightarrow> cell list \<Rightarrow> cid set
    \<Rightarrow> (cid \<Rightarrow> nat) \<Rightarrow> (cell \<times> nat) list \<Rightarrow> error + (cell \<times> nat) list" where
  "dfs_loop g iteratee opt queue visited distance calls =
     (if queue = [] then Inr calls
      else if cell_id (last queue) \<in> visited
      then dfs_loop g iteratee opt (butlast queue) visited distance calls
      else if \<not> iteratee (last queue) (distance (cell_id (last queue)))
      then dfs_loop g iteratee opt (butlast queue) (insert (cell_id (last queue)) visited) distance
             (calls @ [(last queue, distance (cell_id (last queue)))])
      else (case getNeighbors g (last queue) opt of
              Inl e \<Rightarrow> Inl e
            | Inr neighbors \<Rightarrow>
                dfs_loop g iteratee opt (butlast queue @ rev neighbors)
                  (insert (cell_id (last queue)) visited)
                  (setDistances (last queue) neighbors distance)
                  (calls @ [(last queue, distance (cell_id (last queue)))])))"
  by pat_completeness auto

lemma set_butlast_subset: "set (butlast q) \<subseteq> set q"
  by (auto dest: in_set_butlastD)

termination dfs_loop
proof (relation "(\<lambda>(g, it, opt, queue, visited, d, c). card (unvisited g queue visited)) <*mlex*>
                 measure (\<lambda>(g, it, opt, queue, visited, d, c). length queue)", goal_cases)
  case 1
  then show ?case by (simp add: wf_mlex)
next
  case (2 g iteratee opt queue visited distance calls)
  have "unvisited g (butlast queue) visited \<subseteq> unvisited g queue visited"
    using set_butlast_subset [of queue] by (auto simp: unvisited_def)
  then have "card (unvisited g (butlast queue) visited) \<le> card (unvisited g queue visited)"
    by (intro card_mono finite_unvisited)
  then show ?case using 2(1) by (auto intro!: mlex_leq)
next
  case (3 g iteratee opt queue visited distance calls)
  have "last queue \<in> set queue" using 3(1) by simp
  then have "unvisited g (butlast queue) (insert (cell_id (last queue)) visited) \<subset> unvisited g queue visited"
    using 3(2) set_butlast_subset [of queue] by (auto simp: unvisited_def)
  then show ?case by (auto intro!: mlex_less psubset_card_mono finite_unvisited)
next
  case (4 g iteratee opt queue visited distance calls neighbors)
  have "set neighbors \<subseteq> set (cells g)" using getNeighbors_subset [OF 4(4)] .
  moreover have "last queue \<in> set queue" using 4(1) by simp
  ultimately have "unvisited g (butlast queue @ rev neighbors) (insert (cell_id (last queue)) visited)
      \<subset> unvisited g queue visited"
    using 4(2) set_butlast_subset [of queue] by (auto simp: unvisited_def)
  then show ?case by (auto intro!: mlex_less psubset_card_mono finite_unvisited)
qed

declare dfs_loop.simps [simp del]

definition dfs :: "graph \<Rightarrow> cell \<Rightarrow> (cell \<Rightarrow> nat \<Rightarrow> bool) \<Rightarrow> query_opt \<Rightarrow> error + (cell \<times> nat) list" where
  "dfs g element iteratee opt = dfs_loop g iteratee opt [element] {} ((\<lambda>i. 0)(cell_id element := 0)) []"

section \<open>Cell lifecycle operations\<close>

text \<open>
  What the lifecycle operations are given for a cell: an attributes object (its
  \<open>id\<close>, its \<open>source\<close> and \<open>target\<close> when it has them, and its other
  attributes), or a cell model (the branch \<open>cell[CELL_MARKER]\<close>).
\<close>

datatype cell_init = Json cid "endpoint option" "endpoint option" attrs | Model cell

fun init_id :: "cell_init \<Rightarrow> cid" where
  "init_id (Json i s t a) = i"
| "init_id (Model c) = cell_id c"

fun init_attrs :: "cell_init \<Rightarrow> attrs" where
  "init_attrs (Json i s t a) = a"
| "init_attrs (Model c) = attributes c"

fun init_source :: "cell_init \<Rightarrow> endpoint option" where
  "init_source (Json i s t a) = s"
| "init_source (Model (Link i s t a)) = Some s"
| "init_source (Model (Element i a)) = None"

fun init_target :: "cell_init \<Rightarrow> endpoint option" where
  "init_target (Json i s t a) = t"
| "init_target (Model (Link i s t a)) = Some t"
| "init_target (Model (Element i a)) = None"

fun with_attrs :: "attrs \<Rightarrow> cell_init \<Rightarrow> cell_init" where
  "with_attrs a' (Json i s t a) = Json i s t a'"
| "with_attrs a' (Model (Link i s t a)) = Model (Link i s t a')"
| "with_attrs a' (Model (Element i a)) = Model (Element i a')"


text \<open>
  The collaborators the lifecycle operations call and the sources at hand do not
  hold: the cell namespace (does a type name a link class or an element class) and the
  layer controller (the highest z-index of the layer that the attributes name, in a
  graph).
\<close>

record env =
  isLinkType :: "string \<Rightarrow> bool"
  maxZIndex :: "graph \<Rightarrow> attrs \<Rightarrow> int"

text \<open>
  Modelled from the spec: the collection makes the cell of an attributes object, of
  the class its type names; a link gets the empty endpoint for a \<open>source\<close> or
  \<open>target\<close> it was not given, an element keeps no endpoint. The other defaults of
  the classes are not modelled.
\<close>

fun model_of :: "env \<Rightarrow> cell_init \<Rightarrow> cell" where
  "model_of en (Model c) = c"
| "model_of en (Json i s t a) =
     (case map_of a (key_of ''type'') of
        Some (Str ty) \<Rightarrow>
          (if isLinkType en ty
           then Link i (case s of None \<Rightarrow> NoEnd | Some e \<Rightarrow> e) (case t of None \<Rightarrow> NoEnd | Some e \<Rightarrow> e) a
           else Element i a)
      | Some (Num n) \<Rightarrow> Element i a
      | None \<Rightarrow> Element i a)"

text \<open>
  \<open>_prepareCell\<close>: the type must be a string; with \<open>ensureZIndex\<close> a cell without
  \<open>z\<close> gets one more than \<open>maxZ\<close>, the answer of \<open>layer.maxZIndex()\<close>.
\<close>

definition prepareCell :: "int \<Rightarrow> bool \<Rightarrow> cell_init \<Rightarrow> error + cell_init" where
  "prepareCell maxZ ensureZIndex ci =
     (case map_of (init_attrs ci) (key_of ''type'') of
        Some (Str ty) \<Rightarrow>
          Inr (if ensureZIndex \<and> map_of (init_attrs ci) (key_of ''z'') = None
               then with_attrs (AList.update (key_of ''z'') (Num (maxZ + 1)) (init_attrs ci)) ci
               else ci)
      | Some (Num n) \<Rightarrow> Inl TypeError
      | None \<Rightarrow> Inl TypeError)"

text \<open>
  \<open>addCell\<close> for one cell (the branch for an array, which goes to \<open>addCells\<close>,
  is not modelled): the cell is prepared, then handed to the collection.
\<close>

definition addCell :: "env \<Rightarrow> cell_init \<Rightarrow> graph \<Rightarrow> outcome" where
  "addCell en ci g =
     (case prepareCell (maxZIndex en g (init_attrs ci)) True ci of
        Inl e \<Rightarrow> Throw e g
      | Inr ci' \<Rightarrow> Done (collection_add (model_of en ci') g))"

text \<open>
  \<open>_replaceCell\<close>. The \<open>remove\<close> event is triggered on the current cell with
  \<open>clear\<close> set, so that the two listeners run and neither links nor embedded cells
  go with it; the attributes of the two cells are merged by \<open>Object.assign\<close>, key by
  key, the new cell's winning; the result is added.
\<close>

fun cell_source :: "cell \<Rightarrow> endpoint option" where
  "cell_source (Link i s t a) = Some s"
| "cell_source (Element i a) = None"

fun cell_target :: "cell \<Rightarrow> endpoint option" where
  "cell_target (Link i s t a) = Some t"
| "cell_target (Element i a) = None"








section \<open>Notions of the statements\<close>

text \<open>
  \<open>added cs ms\<close> are the cells of \<open>cs\<close> that a collection holding \<open>ms\<close> takes
  when they are added in turn: a cell whose id is taken is skipped.
\<close>

fun added :: "cell list \<Rightarrow> cell list \<Rightarrow> cell list" where
  "added [] ms = []"
| "added (c # cs) ms =
     (if cell_id c \<in> cell_id ` set ms then added cs ms else c # added cs (ms @ [c]))"

text \<open>
  The index agrees with the collection, the cells with an id in \<open>P\<close> set aside.
  Between \<open>_restructureOnRemove\<close> and the silent removal from the collection a cell
  that is being removed is still in the collection and no more in the index; \<open>P\<close>
  holds the ids of the cells in that state, and is empty between two operations.
\<close>

definition index_ok :: "cid set \<Rightarrow> graph \<Rightarrow> bool" where
  "index_ok P g \<longleftrightarrow>
     distinct (map cell_id (cells g))
   \<and> (\<forall>i. i \<in> al_nodes (al g) \<longleftrightarrow> (\<exists>c. getCell g i = Some c \<and> \<not> isLink c \<and> i \<notin> P))
   \<and> (\<forall>i. i \<in> al_edges (al g) \<longleftrightarrow> (\<exists>c. getCell g i = Some c \<and> isLink c \<and> i \<notin> P))
   \<and> (\<forall>s l. l \<in> set (bucket (al_out (al g)) s) \<longleftrightarrow>
              (\<exists>c. getCell g l = Some c \<and> source_id c = Some s \<and> l \<notin> P))
   \<and> (\<forall>t l. l \<in> set (bucket (al_in (al g)) t) \<longleftrightarrow>
              (\<exists>c. getCell g l = Some c \<and> target_id c = Some t \<and> l \<notin> P))
   \<and> (\<forall>s. distinct (bucket (al_out (al g)) s))
   \<and> (\<forall>t. distinct (bucket (al_in (al g)) t))"

text \<open>The link with one of its endpoints set; an element is left as it is.\<close>

fun with_endpoint :: "side \<Rightarrow> endpoint \<Rightarrow> cell \<Rightarrow> cell" where
  "with_endpoint Source e (Link j s t a) = Link j e t a"
| "with_endpoint Target e (Link j s t a) = Link j s e a"
| "with_endpoint sd e (Element j a) = Element j a"

text \<open>
  \<open>fresh es E\<close> are the ids of \<open>es\<close> that are neither in \<open>E\<close> nor earlier in
  \<open>es\<close>; \<open>connected_ids\<close> are the ids of the links that \<open>getConnectedLinks\<close>
  pushes, in its order: the outbound edges first, then the inbound edges not pushed yet.
\<close>

fun fresh :: "cid list \<Rightarrow> cid set \<Rightarrow> cid list" where
  "fresh [] E = []"
| "fresh (e # es) E = (if e \<in> E then fresh es E else e # fresh es (insert e E))"

definition connected_ids :: "graph \<Rightarrow> cid \<Rightarrow> query_opt \<Rightarrow> cid list" where
  "connected_ids g i opt =
     (if snd (directions opt) then fresh (getOutboundEdges g i) {} else [])
     @ (if fst (directions opt)
        then fresh (getInboundEdges g i) (if snd (directions opt) then set (getOutboundEdges g i) else {})
        else [])"

text \<open>What \<open>disconnectLinks\<close> makes of a link connected to the cell with the id \<open>m\<close>.\<close>

fun disconnected :: "cid \<Rightarrow> cell \<Rightarrow> cell" where
  "disconnected m (Link j s t a) =
     (if raw_id s = Some m then Link j (Point 0 0) t a else Link j s (Point 0 0) a)"
| "disconnected m (Element j a) = Element j a"

text \<open>
  What a removal leaves alone: the cells set aside in \<open>P\<close>, the batch counters and
  the notifications, and it adds no cell. A removal that cascades changes no cell that
  it leaves in the graph. \<open>removal_ok n opt\<close> says that with the budget \<open>n\<close> the
  removal of a cell returns, with the index as consistent as it was, in every graph that
  has fewer than \<open>n\<close> cells not set aside.
\<close>

definition keeps :: "cid set \<Rightarrow> graph \<Rightarrow> graph \<Rightarrow> bool" where
  "keeps P g g' \<longleftrightarrow>
     (\<forall>p \<in> P. getCell g' p = getCell g p)
   \<and> cell_id ` set (cells g') \<subseteq> cell_id ` set (cells g)
   \<and> batches g' = batches g \<and> notifications g' = notifications g"

definition unchanged_or_gone :: "graph \<Rightarrow> graph \<Rightarrow> bool" where
  "unchanged_or_gone g g' \<longleftrightarrow> (\<forall>k. getCell g' k = None \<or> getCell g' k = getCell g k)"

definition cascades :: "remove_opt \<Rightarrow> bool" where
  "cascades opt \<longleftrightarrow> opt_clear opt \<or> \<not> opt_disconnectLinks opt"

definition removal_ok :: "nat \<Rightarrow> remove_opt \<Rightarrow> bool" where
  "removal_ok n opt \<longleftrightarrow>
     (\<forall>P g i. index_ok P g \<and> i \<notin> P \<and> card (cell_id ` set (cells g) - P) < n \<longrightarrow>
        (\<exists>g'. cell_remove n opt i g = Done g' \<and> index_ok P g' \<and> getCell g' i = None
             \<and> keeps P g g' \<and> (cascades opt \<longrightarrow> unchanged_or_gone g g')))"

text \<open>
  The operations on the cell collection that the index listens to: a cell is added, the
  cell with an id is removed (with the options given, and a budget above the number of
  cells, which the nesting of the removals cannot exceed), the collection is reset to a
  list of cells, the source or the target of the link with an id is set.
\<close>

datatype operation = Add cell | Remove cid remove_opt | Reset "cell list"
  | SetSource cid endpoint | SetTarget cid endpoint

definition apply_operation :: "operation \<Rightarrow> graph \<Rightarrow> outcome" where
  "apply_operation oper g =
     (case oper of
        Add c \<Rightarrow> Done (collection_add c g)
      | Remove i opt \<Rightarrow> cell_remove (Suc (length (cells g))) opt i g
      | Reset cs \<Rightarrow> Done (collection_reset cs g)
      | SetSource i e \<Rightarrow> link_set Source e i g
      | SetTarget i e \<Rightarrow> link_set Target e i g)"

text \<open>
  The index agrees with the collection: the ids of the collection are distinct, the
  node set holds the ids of its elements and the edge set the ids of its links, and a
  bucket \<open>out[s]\<close> (\<open>in[t]\<close>) holds, once each, the ids of its links with the source
  id \<open>s\<close> (the target id \<open>t\<close>).
\<close>

definition index_consistent :: "graph \<Rightarrow> bool" where
  "index_consistent g \<longleftrightarrow>
     distinct (map cell_id (cells g))
   \<and> (\<forall>i. i \<in> al_nodes (al g) \<longleftrightarrow> (\<exists>c. getCell g i = Some c \<and> isElement c))
   \<and> (\<forall>i. i \<in> al_edges (al g) \<longleftrightarrow> (\<exists>c. getCell g i = Some c \<and> isLink c))
   \<and> (\<forall>s l. l \<in> set (getOutboundEdges g s) \<longleftrightarrow> (\<exists>c. getCell g l = Some c \<and> source_id c = Some s))
   \<and> (\<forall>t l. l \<in> set (getInboundEdges g t) \<longleftrightarrow> (\<exists>c. getCell g l = Some c \<and> target_id c = Some t))
   \<and> (\<forall>s. distinct (getOutboundEdges g s))
   \<and> (\<forall>t. distinct (getInboundEdges g t))"

text \<open>
  An example: a namespace in which \<open>standard.Link\<close> is the one link type, layers with
  no cell yet, and the cell and the replacement of the example of \<open>_replaceCell\<close>.
\<close>

definition example_env :: env where
  "example_env = \<lparr> isLinkType = (\<lambda>ty. ty = ''standard.Link''), maxZIndex = (\<lambda>g a. 0) \<rparr>"



text \<open>
  Every endpoint of a link of the graph that carries an id names a cell of the graph;
  and an example, an element with a link from itself to itself.
\<close>

definition endpoints_resolve :: "graph \<Rightarrow> bool" where
  "endpoints_resolve g \<longleftrightarrow>
     (\<forall>c \<in> set (cells g). \<forall>i. cell_source c = Some (Ref i) \<or> cell_target c = Some (Ref i)
        \<longrightarrow> getCell g i \<noteq> None)"

definition loop_graph :: graph where
  "loop_graph = fold collection_add
     [Element (key_of ''E'') [((key_of ''type''), Str ''standard.Rectangle'')],
      Link (key_of ''L'') (Ref (key_of ''E'')) (Ref (key_of ''E'')) [((key_of ''type''), Str ''standard.Link'')]] empty_graph"

text \<open>
  The same element and self-loop, and a second link \<open>EX\<close> from the element to
  \<open>X\<close>, with no cell \<open>X\<close>.
\<close>

definition loop_dangling_graph :: graph where
  "loop_dangling_graph = fold collection_add
     [Element (key_of ''E'') [],
      Link (key_of ''L'') (Ref (key_of ''E'')) (Ref (key_of ''E'')) [],
      Link (key_of ''EX'') (Ref (key_of ''E'')) (Ref (key_of ''X'')) []] empty_graph"

text \<open>The accumulator of \<open>getNeighbors\<close> holds cells of the graph, each id once.\<close>

definition res_ok :: "graph \<Rightarrow> cell list \<Rightarrow> bool" where
  "res_ok g res \<longleftrightarrow> distinct (map cell_id res) \<and> (\<forall>c \<in> set res. getCell g (cell_id c) = Some c)"

text \<open>
  The notions about a search. \<open>nbs g opt c\<close> are the neighbours of a cell, the ids of
  the calls are \<open>called_ids\<close>. A call on \<open>c\<close> is justified by the calls before it
  when it is the first call and \<open>c\<close> is the start cell, or when \<open>c\<close> is a neighbour of
  a cell called before for which the iteratee did not answer false. The calls are closed
  when every neighbour of a cell called, for which the iteratee did not answer false, was
  called too or waits in the queue \<open>Q\<close>.
\<close>

definition nbs :: "graph \<Rightarrow> query_opt \<Rightarrow> cell \<Rightarrow> cell list" where
  "nbs g opt c = (case getNeighbors g c opt of Inr ns \<Rightarrow> ns | Inl e \<Rightarrow> [])"

definition called_ids :: "(cell \<times> nat) list \<Rightarrow> cid set" where
  "called_ids calls = cell_id ` fst ` set calls"

definition justified :: "graph \<Rightarrow> query_opt \<Rightarrow> (cell \<Rightarrow> nat \<Rightarrow> bool) \<Rightarrow> cell
    \<Rightarrow> (cell \<times> nat) list \<Rightarrow> cell \<Rightarrow> bool" where
  "justified g opt iteratee element before c \<longleftrightarrow>
     (before = [] \<and> c = element)
   \<or> (\<exists>p d. (p, d) \<in> set before \<and> iteratee p d \<and> c \<in> set (nbs g opt p))"

definition expanded_closed :: "graph \<Rightarrow> query_opt \<Rightarrow> (cell \<Rightarrow> nat \<Rightarrow> bool) \<Rightarrow> cell set
    \<Rightarrow> (cell \<times> nat) list \<Rightarrow> bool" where
  "expanded_closed g opt iteratee Q calls \<longleftrightarrow>
     (\<forall>c d n. (c, d) \<in> set calls \<and> iteratee c d \<and> n \<in> set (nbs g opt c)
        \<longrightarrow> cell_id n \<in> called_ids calls \<or> n \<in> Q)"

definition calls_justified :: "graph \<Rightarrow> query_opt \<Rightarrow> (cell \<Rightarrow> nat \<Rightarrow> bool) \<Rightarrow> cell
    \<Rightarrow> (cell \<times> nat) list \<Rightarrow> bool" where
  "calls_justified g opt iteratee element calls \<longleftrightarrow>
     (\<forall>before c d after. calls = before @ (c, d) # after \<longrightarrow> justified g opt iteratee element before c)"

definition search_inv :: "graph \<Rightarrow> query_opt \<Rightarrow> (cell \<Rightarrow> nat \<Rightarrow> bool) \<Rightarrow> cell \<Rightarrow> cell set
    \<Rightarrow> (cell \<times> nat) list \<Rightarrow> bool" where
  "search_inv g opt iteratee element Q calls \<longleftrightarrow>
     distinct (map (cell_id \<circ> fst) calls)
   \<and> expanded_closed g opt iteratee Q calls
   \<and> (\<forall>c \<in> Q. justified g opt iteratee element calls c)
   \<and> calls_justified g opt iteratee element calls
   \<and> (calls = [] \<longrightarrow> Q = {element})"

text \<open>What holds of the calls when a search has ended.\<close>

definition visit_ok :: "graph \<Rightarrow> query_opt \<Rightarrow> cell \<Rightarrow> (cell \<Rightarrow> nat \<Rightarrow> bool)
    \<Rightarrow> (cell \<times> nat) list \<Rightarrow> bool" where
  "visit_ok g opt element iteratee calls \<longleftrightarrow>
     calls \<noteq> [] \<and> hd calls = (element, 0)
   \<and> distinct (map (cell_id \<circ> fst) calls)
   \<and> expanded_closed g opt iteratee {} calls
   \<and> calls_justified g opt iteratee element calls"

text \<open>
  The cells a search can reach: the start, and the neighbours of a cell it can reach.
\<close>

definition reachable :: "graph \<Rightarrow> query_opt \<Rightarrow> cell \<Rightarrow> cell set" where
  "reachable g opt element = {(c, n). n \<in> set (nbs g opt c)}\<^sup>* `` {element}"

text \<open>
  Examples: a ring of three elements, searched along the outbound links with an iteratee
  that answers false on \<open>B\<close>; and a graph with a link \<open>AX\<close> whose target names no
  cell, searched with an iteratee that never answers false.
\<close>

definition ring_graph :: graph where
  "ring_graph = fold collection_add
     [Element (key_of ''A'') [], Element (key_of ''B'') [], Element (key_of ''C'') [],
      Link (key_of ''AB'') (Ref (key_of ''A'')) (Ref (key_of ''B'')) [],
      Link (key_of ''BC'') (Ref (key_of ''B'')) (Ref (key_of ''C'')) [],
      Link (key_of ''CA'') (Ref (key_of ''C'')) (Ref (key_of ''A'')) []] empty_graph"

definition outbound_only :: query_opt where
  "outbound_only = \<lparr> inbound = None, outbound = Some True \<rparr>"

definition stop_at_B :: "cell \<Rightarrow> nat \<Rightarrow> bool" where
  "stop_at_B c d = (cell_id c \<noteq> (key_of ''B''))"

definition dangling_graph :: graph where
  "dangling_graph = fold collection_add
     [Element (key_of ''A'') [], Element (key_of ''B'') [],
      Link (key_of ''AB'') (Ref (key_of ''A'')) (Ref (key_of ''B'')) [],
      Link (key_of ''AX'') (Ref (key_of ''A'')) (Ref (key_of ''X'')) []] empty_graph"

definition any_cell :: "cell \<Rightarrow> nat \<Rightarrow> bool" where
  "any_cell c d = True"




text \<open>
  What the claims say of a merge: the incoming value of a key wins, the current value
  stays for a key the incoming cell does not have; and the same for an endpoint, a link
  that gets none from either having the empty one.
\<close>

definition merged_value :: "attrs \<Rightarrow> attrs \<Rightarrow> key \<Rightarrow> val option" where
  "merged_value cur_attrs new_attrs k =
     (case map_of new_attrs k of Some v \<Rightarrow> Some v | None \<Rightarrow> map_of cur_attrs k)"





text \<open>
  What the claim says of one incoming cell. The incoming cell replaces the current one
  when it has a type and the type is not the current cell's; it is a patch of the
  current cell otherwise. \<open>synced en current ci c\<close> says that \<open>c\<close> is what the
  graph is to hold for the incoming cell \<open>ci\<close>, the graph having held \<open>current\<close>
  under the id before: the merged attributes (a cell that is added or that replaces one
  is given a \<open>z\<close> if the merge has none, a patched cell is not), the class of the
  current cell for a patch and the class of the incoming cell otherwise, and for a link
  the merged endpoints.
\<close>

definition replaces :: "cell \<Rightarrow> cell_init \<Rightarrow> bool" where
  "replaces cur ci \<longleftrightarrow>
     map_of (init_attrs ci) (key_of ''type'') \<noteq> None
   \<and> map_of (attributes cur) (key_of ''type'') \<noteq> map_of (init_attrs ci) (key_of ''type'')"






text \<open>
  The incoming cells that \<open>syncCells\<close> takes without an exception: the type of a cell
  that is added, or that replaces one, is a string; and a patch for an element carries
  no endpoint. The keys of an incoming cell are distinct, as the keys of an object are.
\<close>

definition acceptable :: "graph \<Rightarrow> cell_init \<Rightarrow> bool" where
  "acceptable g ci \<longleftrightarrow>
     distinct (map fst (init_attrs ci))
   \<and> (case getCell g (init_id ci) of
         None \<Rightarrow> (\<exists>ty. map_of (init_attrs ci) (key_of ''type'') = Some (Str ty))
       | Some cur \<Rightarrow>
           if replaces cur ci then (\<exists>ty. map_of (init_attrs ci) (key_of ''type'') = Some (Str ty))
           else isLink cur \<or> (init_source ci = None \<and> init_target ci = None))"




section \<open>Keys\<close>

lemma key_of_inject [simp]:
  "s \<notin> set object_prototype \<Longrightarrow> t \<notin> set object_prototype \<Longrightarrow> (key_of s = key_of t) = (s = t)"
  by (simp add: key_of_def Abs_key_inject)

lemma Rep_key_of [simp]: "s \<notin> set object_prototype \<Longrightarrow> Rep_key (key_of s) = s"
  by (simp add: key_of_def Abs_key_inverse)

lemma inherited_name [simp]:
  "s \<in> set object_prototype \<longleftrightarrow>
     s = ''constructor'' \<or> s = ''__defineGetter__'' \<or> s = ''__defineSetter__''
   \<or> s = ''hasOwnProperty'' \<or> s = ''__lookupGetter__'' \<or> s = ''__lookupSetter__''
   \<or> s = ''isPrototypeOf'' \<or> s = ''propertyIsEnumerable'' \<or> s = ''toString''
   \<or> s = ''valueOf'' \<or> s = ''__proto__'' \<or> s = ''toLocaleString''"
  by (simp add: object_prototype_def)

section \<open>Properties of the batch tracker\<close>
















section \<open>The index and the collection\<close>

lemma fold_insert_model: "fold insert_model cs ms = ms @ added cs ms"
  by (induction cs arbitrary: ms) (auto simp: insert_model_def)

lemma fold_collection_add:
  "fold collection_add cs g =
     g\<lparr> cells := cells g @ added cs (cells g),
        al := fold restructureOnAdd (added cs (cells g)) (al g) \<rparr>"
proof (induction cs arbitrary: g)
  case Nil
  then show ?case by simp
next
  case (Cons c cs)
  show ?case
  proof (cases "cell_id c \<in> cell_id ` set (cells g)")
    case True
    then have "collection_add c g = g" by (simp add: collection_add_def)
    with True Cons show ?thesis by simp
  next
    case False
    then have step: "collection_add c g = g\<lparr> cells := cells g @ [c], al := restructureOnAdd c (al g) \<rparr>"
      by (simp add: collection_add_def)
    have "fold collection_add (c # cs) g = fold collection_add cs (collection_add c g)" by simp
    also have "\<dots> = fold collection_add cs (g\<lparr> cells := cells g @ [c], al := restructureOnAdd c (al g) \<rparr>)"
      by (simp only: step)
    finally show ?thesis using False by (simp add: Cons)
  qed
qed

lemma reset_eq_fold_add:
  "cells (collection_reset cs g) = cells (fold collection_add cs empty_graph)
   \<and> al (collection_reset cs g) = al (fold collection_add cs empty_graph)"
  by (simp add: collection_reset_def Let_def fold_insert_model fold_collection_add
      restructureOnReset_def empty_graph_def)

lemma getCell_Some: "getCell g i = Some c \<Longrightarrow> cell_id c = i \<and> c \<in> set (cells g)"
  by (auto simp: getCell_def find_Some_iff)

lemma getCell_None: "getCell g i = None \<longleftrightarrow> i \<notin> cell_id ` set (cells g)"
  by (auto simp: getCell_def find_None_iff)

lemma find_snoc: "find p (xs @ [y]) = (case find p xs of Some d \<Rightarrow> Some d | None \<Rightarrow> if p y then Some y else None)"
  by (induction xs) auto

lemma getCell_append: "getCell (g\<lparr>cells := cells g @ [c]\<rparr>) i =
   (case getCell g i of Some d \<Rightarrow> Some d | None \<Rightarrow> if cell_id c = i then Some c else None)"
  by (simp add: getCell_def find_snoc split: option.splits)

lemma find_filter_id: "find (\<lambda>c. cell_id c = i) (filter (\<lambda>c. cell_id c \<noteq> j) cs) =
   (if i = j then None else find (\<lambda>c. cell_id c = i) cs)"
  by (induction cs) auto

lemma getCell_collection_remove: "getCell (collection_remove j g) i = (if i = j then None else getCell g i)"
  by (simp add: getCell_def collection_remove_def find_filter_id)

lemma find_replace_model: "find (\<lambda>d. cell_id d = i) (replace_model c cs) =
   (if i = cell_id c then (if cell_id c \<in> cell_id ` set cs then Some c else None)
    else find (\<lambda>d. cell_id d = i) cs)"
  by (induction cs) (auto simp: replace_model_def)

lemma map_id_replace_model: "map cell_id (replace_model c cs) = map cell_id cs"
  by (induction cs) (auto simp: replace_model_def)

lemma getCell_al_update [simp]: "getCell (g\<lparr>al := x\<rparr>) i = getCell g i"
  by (simp add: getCell_def)

lemma bucket_bucket_add: "bucket (bucket_add m s l) k = (if k = s then put_key l (bucket m s) else bucket m k)"
  by (simp add: bucket_add_def bucket_def)

lemma bucket_bucket_delete: "bucket (bucket_delete m s l) k = (if k = s then removeAll l (bucket m s) else bucket m k)"
  by (simp add: bucket_delete_def bucket_def split: option.splits)

lemma set_put_key: "set (put_key l b) = insert l (set b)"
  by (auto simp: put_key_def)

lemma distinct_put_key: "distinct (put_key l b) = distinct b"
  by (auto simp: put_key_def)

lemma bucket_None: "m k = None \<Longrightarrow> bucket m k = []"
  by (simp add: bucket_def)

lemma add_out: "bucket (al_out (restructureOnAdd c x)) k =
   (if source_id c = Some k then put_key (cell_id c) (bucket (al_out x) k) else bucket (al_out x) k)"
  by (cases c) (auto simp: Let_def bucket_bucket_add split: option.splits)

lemma add_in: "bucket (al_in (restructureOnAdd c x)) k =
   (if target_id c = Some k then put_key (cell_id c) (bucket (al_in x) k) else bucket (al_in x) k)"
  by (cases c) (auto simp: Let_def bucket_bucket_add split: option.splits)

lemma add_nodes: "al_nodes (restructureOnAdd c x) = (if isLink c then al_nodes x else insert (cell_id c) (al_nodes x))"
  by (cases c) (auto simp: Let_def split: option.splits)

lemma add_edges: "al_edges (restructureOnAdd c x) = (if isLink c then insert (cell_id c) (al_edges x) else al_edges x)"
  by (cases c) (auto simp: Let_def split: option.splits)

lemma remove_out: "bucket (al_out (restructureOnRemove c x)) k =
   (if source_id c = Some k then removeAll (cell_id c) (bucket (al_out x) k) else bucket (al_out x) k)"
  by (cases c) (auto simp: Let_def bucket_bucket_delete bucket_None split: option.splits)

lemma remove_in: "bucket (al_in (restructureOnRemove c x)) k =
   (if target_id c = Some k then removeAll (cell_id c) (bucket (al_in x) k) else bucket (al_in x) k)"
  by (cases c) (auto simp: Let_def bucket_bucket_delete bucket_None split: option.splits)

lemma remove_nodes: "al_nodes (restructureOnRemove c x) = (if isLink c then al_nodes x else al_nodes x - {cell_id c})"
  by (cases c) (auto simp: Let_def split: option.splits)

lemma remove_edges: "al_edges (restructureOnRemove c x) = (if isLink c then al_edges x - {cell_id c} else al_edges x)"
  by (cases c) (auto simp: Let_def split: option.splits)

lemma index_ok_collection_add:
  assumes "index_ok P g" "cell_id c \<notin> P"
  shows "index_ok P (collection_add c g)"
proof (cases "cell_id c \<in> cell_id ` set (cells g)")
  case True
  then show ?thesis using assms by (simp add: collection_add_def)
next
  case False
  then have none: "getCell g (cell_id c) = None" by (simp add: getCell_None)
  have gc: "\<And>i. getCell (collection_add c g) i = (if i = cell_id c then Some c else getCell g i)"
    using False none getCell_append [of g c] by (auto simp: collection_add_def getCell_def split: option.splits)
  have al': "al (collection_add c g) = restructureOnAdd c (al g)"
    using False by (simp add: collection_add_def)
  have cs': "cells (collection_add c g) = cells g @ [c]"
    using False by (simp add: collection_add_def)
  show ?thesis
    using assms False none unfolding index_ok_def gc al' cs'
    by (auto simp: add_out add_in add_nodes add_edges set_put_key distinct_put_key)
qed

lemma index_ok_restructureOnRemove:
  assumes "index_ok P g" "getCell g i = Some c"
  shows "index_ok (insert i P) (g\<lparr>al := restructureOnRemove c (al g)\<rparr>)"
proof -
  have ci: "cell_id c = i" using assms(2) getCell_Some by blast
  show ?thesis
    using assms unfolding index_ok_def
    by (auto simp: ci remove_out remove_in remove_nodes remove_edges distinct_removeAll)
qed

lemma index_ok_collection_remove:
  assumes "index_ok (insert i P) g"
  shows "index_ok P (collection_remove i g)"
proof -
  have d: "distinct (map cell_id (cells (collection_remove i g)))"
    using assms by (simp add: index_ok_def collection_remove_def distinct_map_filter)
  have a: "al (collection_remove i g) = al g" by (simp add: collection_remove_def)
  show ?thesis
    using assms d unfolding index_ok_def a getCell_collection_remove
    by auto
qed

lemma chg_out: "bucket (al_out (restructureOnChangeSource l p s x)) k =
   (if endpoint_id s = Some k
    then put_key l (if endpoint_id p = Some k then removeAll l (bucket (al_out x) k) else bucket (al_out x) k)
    else (if endpoint_id p = Some k then removeAll l (bucket (al_out x) k) else bucket (al_out x) k))"
  by (auto simp: restructureOnChangeSource_def Let_def bucket_bucket_add bucket_bucket_delete split: option.splits)

lemma chg_out_rest: "al_in (restructureOnChangeSource l p s x) = al_in x"
  "al_nodes (restructureOnChangeSource l p s x) = al_nodes x"
  "al_edges (restructureOnChangeSource l p s x) = al_edges x"
  by (auto simp: restructureOnChangeSource_def Let_def split: option.splits)

lemma chg_in: "bucket (al_in (restructureOnChangeTarget l p s x)) k =
   (if endpoint_id s = Some k
    then put_key l (if endpoint_id p = Some k then removeAll l (bucket (al_in x) k) else bucket (al_in x) k)
    else (if endpoint_id p = Some k then removeAll l (bucket (al_in x) k) else bucket (al_in x) k))"
  by (auto simp: restructureOnChangeTarget_def Let_def bucket_bucket_add bucket_bucket_delete split: option.splits)

lemma chg_in_rest: "al_out (restructureOnChangeTarget l p s x) = al_out x"
  "al_nodes (restructureOnChangeTarget l p s x) = al_nodes x"
  "al_edges (restructureOnChangeTarget l p s x) = al_edges x"
  by (auto simp: restructureOnChangeTarget_def Let_def split: option.splits)

lemma getCell_replace:
  assumes "getCell g (cell_id c) \<noteq> None"
  shows "getCell (g\<lparr>cells := replace_model c (cells g), al := x\<rparr>) k = (if k = cell_id c then Some c else getCell g k)"
proof -
  have "cell_id c \<in> cell_id ` set (cells g)"
    using assms getCell_None [of g "cell_id c"] by simp
  then show ?thesis by (simp add: getCell_def find_replace_model)
qed

lemma link_set_Link:
  assumes "getCell g i = Some (Link j s t a)"
  shows "\<exists>g'. link_set sd e i g = Done g'
      \<and> getCell g' i = Some (with_endpoint sd e (Link j s t a))
      \<and> (\<forall>k. k \<noteq> i \<longrightarrow> getCell g' k = getCell g k)
      \<and> map cell_id (cells g') = map cell_id (cells g)
      \<and> batches g' = batches g \<and> notifications g' = notifications g
      \<and> (\<forall>P. index_ok P g \<and> i \<notin> P \<longrightarrow> index_ok P g')"
proof -
  have ji: "j = i" using assms getCell_Some by fastforce
  have ne: "getCell g (cell_id (Link j e' t' a)) \<noteq> None" for e' t'
    using assms ji by simp
  show ?thesis
  proof (cases sd)
    case Source
    show ?thesis
    proof (cases "s = e")
      case True
      then show ?thesis using assms Source by (simp add: link_set_def)
    next
      case False
      let ?g' = "g\<lparr> cells := replace_model (Link j e t a) (cells g),
                              al := restructureOnChangeSource j s e (al g) \<rparr>"
      have ls: "link_set sd e i g = Done ?g'" using assms Source False by (simp add: link_set_def)
      have gc: "\<And>k. getCell ?g' k = (if k = i then Some (Link j e t a) else getCell g k)"
        using getCell_replace [OF ne [of e t]] ji by simp
      have ok: "index_ok P ?g'" if "index_ok P g" "i \<notin> P" for P
        using that assms ji unfolding index_ok_def gc
        by (auto simp: chg_out chg_out_rest map_id_replace_model set_put_key distinct_put_key distinct_removeAll)
      show ?thesis using ls gc ok Source by (auto simp: map_id_replace_model)
    qed
  next
    case Target
    show ?thesis
    proof (cases "t = e")
      case True
      then show ?thesis using assms Target by (simp add: link_set_def)
    next
      case False
      let ?g' = "g\<lparr> cells := replace_model (Link j s e a) (cells g),
                              al := restructureOnChangeTarget j t e (al g) \<rparr>"
      have ls: "link_set sd e i g = Done ?g'" using assms Target False by (simp add: link_set_def)
      have gc: "\<And>k. getCell ?g' k = (if k = i then Some (Link j s e a) else getCell g k)"
        using getCell_replace [OF ne [of s e]] ji by simp
      have ok: "index_ok P ?g'" if "index_ok P g" "i \<notin> P" for P
        using that assms ji unfolding index_ok_def gc
        by (auto simp: chg_in chg_in_rest map_id_replace_model set_put_key distinct_put_key distinct_removeAll)
      show ?thesis using ls gc ok Target by (auto simp: map_id_replace_model)
    qed
  qed
qed

lemma set_fresh: "set (fresh es E) = set es - E"
  by (induction es arbitrary: E) auto

lemma distinct_fresh: "distinct (fresh es E)"
  by (induction es arbitrary: E) (auto simp: set_fresh)

lemma fold_addEdge: "fold (addEdge g) es (links, E) = (links @ map (getCell g) (fresh es E), E \<union> set es)"
  by (induction es arbitrary: links E) (auto simp: addEdge_def)

lemma getConnectedLinks_ids:
  "getConnectedLinks g c opt = map (getCell g) (connected_ids g (cell_id c) opt)"
  by (cases "directions opt")
     (auto simp: getConnectedLinks_def connected_ids_def addOutbounds_def addInbounds_def fold_addEdge Let_def)

lemma distinct_connected_ids: "distinct (connected_ids g i opt)"
  by (auto simp: connected_ids_def distinct_fresh set_fresh)

lemma set_connected_ids:
  "set (connected_ids g i opt) =
     (if snd (directions opt) then set (getOutboundEdges g i) else {})
   \<union> (if fst (directions opt) then set (getInboundEdges g i) else {})"
  by (auto simp: connected_ids_def set_fresh)

lemma connected_ids_live:
  assumes "index_ok P g" "l \<in> set (connected_ids g i opt)"
  shows "l \<notin> P \<and> (\<exists>c. getCell g l = Some c \<and> isLink c)"
proof -
  have "l \<in> set (bucket (al_out (al g)) i) \<or> l \<in> set (bucket (al_in (al g)) i)"
    using assms(2) by (auto simp: set_connected_ids getOutboundEdges_def getInboundEdges_def split: if_splits)
  then obtain c where c: "getCell g l = Some c" "l \<notin> P" "source_id c = Some i \<or> target_id c = Some i"
    using assms(1) unfolding index_ok_def by blast
  then have "isLink c" by (cases c) auto
  with c show ?thesis by blast
qed

lemma disconnectLink_Link:
  assumes "getCell g (cell_id l) = Some c" "isLink c"
  shows "\<exists>g'. disconnectLink model (Some l) g = Done g'
      \<and> getCell g' (cell_id l) = Some (disconnected (cell_id model) c)
      \<and> (\<forall>k. k \<noteq> cell_id l \<longrightarrow> getCell g' k = getCell g k)
      \<and> map cell_id (cells g') = map cell_id (cells g)
      \<and> batches g' = batches g \<and> notifications g' = notifications g
      \<and> (\<forall>P. index_ok P g \<and> cell_id l \<notin> P \<longrightarrow> index_ok P g')"
proof -
  obtain j s t a where c: "c = Link j s t a" using assms(2) by (cases c) auto
  have j: "j = cell_id l" using assms(1) c getCell_Some by fastforce
  let ?sd = "if raw_id s = Some (cell_id model) then Source else Target"
  have dl: "disconnectLink model (Some l) g = link_set ?sd (Point 0 0) (cell_id l) g"
    using assms(1) c j by (simp add: disconnectLink_def)
  have w: "with_endpoint ?sd (Point 0 0) (Link j s t a) = disconnected (cell_id model) c"
    using c by simp
  show ?thesis
    using link_set_Link [of g "cell_id l" j s t a ?sd "Point 0 0"] assms(1) c
    unfolding dl w by simp
qed

lemma disconnect_fold:
  assumes "\<forall>l \<in> set ls. \<exists>c. getCell g l = Some c \<and> isLink c" "distinct ls"
    "\<forall>l \<in> set ls. \<exists>c. getCell g0 l = Some c"
  shows "\<exists>g'. fold_outcome (disconnectLink model) (map (getCell g0) ls) g = Done g'
      \<and> (\<forall>k. getCell g' k = (if k \<in> set ls then map_option (disconnected (cell_id model)) (getCell g k) else getCell g k))
      \<and> map cell_id (cells g') = map cell_id (cells g)
      \<and> batches g' = batches g \<and> notifications g' = notifications g
      \<and> (\<forall>P. index_ok P g \<and> set ls \<inter> P = {} \<longrightarrow> index_ok P g')"
  using assms
proof (induction ls arbitrary: g)
  case Nil
  then show ?case by simp
next
  case (Cons l ls)
  obtain c where c: "getCell g l = Some c" "isLink c" using Cons.prems(1) by auto
  obtain l0 where l0: "getCell g0 l = Some l0" using Cons.prems(3) by auto
  have idl0: "cell_id l0 = l" using l0 getCell_Some by blast
  obtain g1 where g1: "disconnectLink model (Some l0) g = Done g1"
      "getCell g1 l = Some (disconnected (cell_id model) c)"
      "\<forall>k. k \<noteq> l \<longrightarrow> getCell g1 k = getCell g k"
      "map cell_id (cells g1) = map cell_id (cells g)"
      "batches g1 = batches g" "notifications g1 = notifications g"
      "\<forall>P. index_ok P g \<and> l \<notin> P \<longrightarrow> index_ok P g1"
    using disconnectLink_Link [of g l0 c model] c idl0 by auto
  have pre1: "\<forall>l' \<in> set ls. \<exists>c. getCell g1 l' = Some c \<and> isLink c"
    using Cons.prems(1,2) g1(3) by auto
  obtain g' where g': "fold_outcome (disconnectLink model) (map (getCell g0) ls) g1 = Done g'"
      "\<forall>k. getCell g' k = (if k \<in> set ls then map_option (disconnected (cell_id model)) (getCell g1 k) else getCell g1 k)"
      "map cell_id (cells g') = map cell_id (cells g1)"
      "batches g' = batches g1" "notifications g' = notifications g1"
      "\<forall>P. index_ok P g1 \<and> set ls \<inter> P = {} \<longrightarrow> index_ok P g'"
    using Cons.IH [OF pre1] Cons.prems(2,3) by auto
  have "fold_outcome (disconnectLink model) (map (getCell g0) (l # ls)) g = Done g'"
    using g1(1) g'(1) l0 by simp
  moreover have "\<forall>k. getCell g' k = (if k \<in> set (l # ls) then map_option (disconnected (cell_id model)) (getCell g k) else getCell g k)"
    using g'(2) g1(2,3) c(1) Cons.prems(2) by auto
  moreover have "\<forall>P. index_ok P g \<and> set (l # ls) \<inter> P = {} \<longrightarrow> index_ok P g'"
    using g'(6) g1(7) by auto
  ultimately show ?case using g'(3,4,5) g1(4,5,6) by auto
qed

lemma keeps_refl: "keeps P g g"
  by (simp add: keeps_def)

lemma keeps_trans: "keeps P g g1 \<Longrightarrow> keeps P g1 g2 \<Longrightarrow> keeps P g g2"
  unfolding keeps_def by (intro conjI; (elim conjE)?; (simp; fail | blast))

lemma keeps_mono: "keeps P g g' \<Longrightarrow> Q \<subseteq> P \<Longrightarrow> keeps Q g g'"
  by (auto simp: keeps_def)

lemma uog_refl: "unchanged_or_gone g g" by (simp add: unchanged_or_gone_def)

lemma uog_trans: "unchanged_or_gone g g1 \<Longrightarrow> unchanged_or_gone g1 g2 \<Longrightarrow> unchanged_or_gone g g2"
  unfolding unchanged_or_gone_def by metis

lemma card_live_mono:
  assumes "keeps P g g'"
  shows "card (cell_id ` set (cells g') - P) \<le> card (cell_id ` set (cells g) - P)"
  using assms by (auto simp: keeps_def intro!: card_mono)

lemma invoke_remove_ok:
  assumes A: "removal_ok n opt"
    and "index_ok P g"
    and "\<forall>entry \<in> set entries. \<exists>l. entry = Some l \<and> cell_id l \<notin> P"
    and "card (cell_id ` set (cells g) - P) < n"
  shows "\<exists>g'. invoke_remove n opt entries g = Done g' \<and> index_ok P g'
      \<and> (\<forall>l. Some l \<in> set entries \<longrightarrow> getCell g' (cell_id l) = None)
      \<and> keeps P g g' \<and> (cascades opt \<longrightarrow> unchanged_or_gone g g')"
  using assms(2-)
proof (induction entries arbitrary: g)
  case Nil
  then show ?case by (simp add: keeps_refl uog_refl)
next
  case (Cons entry entries)
  obtain l where l: "entry = Some l" "cell_id l \<notin> P" using Cons.prems(2) by auto
  obtain g1 where g1: "cell_remove n opt (cell_id l) g = Done g1" "index_ok P g1"
      "getCell g1 (cell_id l) = None" "keeps P g g1" "cascades opt \<longrightarrow> unchanged_or_gone g g1"
    using A Cons.prems(1,3) l(2) unfolding removal_ok_def by blast
  have c1: "card (cell_id ` set (cells g1) - P) < n"
    using card_live_mono [OF g1(4)] Cons.prems(3) by simp
  obtain g' where g': "invoke_remove n opt entries g1 = Done g'" "index_ok P g'"
      "\<forall>l. Some l \<in> set entries \<longrightarrow> getCell g' (cell_id l) = None"
      "keeps P g1 g'" "cascades opt \<longrightarrow> unchanged_or_gone g1 g'"
    using Cons.IH [OF g1(2) _ c1] Cons.prems(2) by auto
  have gone: "getCell g' (cell_id l) = None"
    using g1(3) g'(4) by (auto simp: keeps_def getCell_None)
  have "invoke_remove n opt (entry # entries) g = Done g'"
    using l(1) g1(1) g'(1) by simp
  then show ?case
    using g'(2,3) gone l(1) keeps_trans [OF g1(4) g'(4)] g1(5) g'(5) uog_trans
    by auto
qed

lemma removal_ok_all: "removal_ok n opt"
proof (induction n)
  case 0
  then show ?case by (simp add: removal_ok_def)
next
  case (Suc n)
  show ?case
    unfolding removal_ok_def
  proof (intro allI impI, elim conjE)
    fix P g i
    assume ok: "index_ok P g" and iP: "i \<notin> P" and cd: "card (cell_id ` set (cells g) - P) < Suc n"
    show "\<exists>g'. cell_remove (Suc n) opt i g = Done g' \<and> index_ok P g' \<and> getCell g' i = None
             \<and> keeps P g g' \<and> (cascades opt \<longrightarrow> unchanged_or_gone g g')"
    proof (cases "getCell g i")
      case None
      then show ?thesis using ok by (simp add: keeps_refl uog_refl)
    next
      case (Some c)
      have ci: "cell_id c = i" using Some getCell_Some by blast
      let ?g1 = "g\<lparr> al := restructureOnRemove c (al g) \<rparr>"
      let ?P = "insert i P"
      have ok1: "index_ok ?P ?g1" using index_ok_restructureOnRemove [OF ok Some] .
      have iin: "i \<in> cell_id ` set (cells g) - P"
        using Some iP getCell_None [of g i] by auto
      have "cell_id ` set (cells ?g1) - ?P = (cell_id ` set (cells g) - P) - {i}" by auto
      moreover have "card ((cell_id ` set (cells g) - P) - {i}) < card (cell_id ` set (cells g) - P)"
        using iin by (intro card_Diff1_less) auto
      ultimately have cd1: "card (cell_id ` set (cells ?g1) - ?P) < n"
        using cd by simp
      have k1: "keeps P g ?g1" by (simp add: keeps_def)
      have u1: "unchanged_or_gone g ?g1" by (simp add: unchanged_or_gone_def)
      have step: "cell_remove (Suc n) opt i g = removeCell n opt c ?g1" using Some by simp
      have fin: "\<exists>g'. removeCell n opt c ?g1 = Done g' \<and> index_ok P g' \<and> getCell g' i = None
             \<and> keeps P g g' \<and> (cascades opt \<longrightarrow> unchanged_or_gone g g')"
        if mid: "(if \<not> opt_clear opt
            then (if opt_disconnectLinks opt then disconnectLinks c ?g1 else removeLinks n opt c ?g1)
            else Done ?g1) = Done g2" "index_ok ?P g2" "keeps ?P ?g1 g2"
            "cascades opt \<longrightarrow> unchanged_or_gone ?g1 g2" for g2
      proof -
        let ?g3 = "collection_remove i g2"
        have r: "removeCell n opt c ?g1 = Done ?g3" using mid(1) ci by simp
        have ok3: "index_ok P ?g3" using index_ok_collection_remove [OF mid(2)] .
        have gone: "getCell ?g3 i = None" by (simp add: getCell_collection_remove)
        have "\<forall>p \<in> P. getCell ?g3 p = getCell g p"
          using mid(3) iP unfolding keeps_def by (auto simp: getCell_collection_remove)
        moreover have "cell_id ` set (cells ?g3) \<subseteq> cell_id ` set (cells g)"
          using mid(3) unfolding keeps_def by (auto simp: collection_remove_def)
        moreover have "batches ?g3 = batches g \<and> notifications ?g3 = notifications g"
          using mid(3) unfolding keeps_def by (simp add: collection_remove_def)
        ultimately have k3: "keeps P g ?g3"
          unfolding keeps_def by blast
        have u3: "cascades opt \<longrightarrow> unchanged_or_gone g ?g3"
          using mid(4) unfolding unchanged_or_gone_def
          by (auto simp: getCell_collection_remove)
        show ?thesis using r ok3 gone k3 u3 by blast
      qed
      show ?thesis
      proof (cases "opt_clear opt")
        case True
        show ?thesis unfolding step
          by (rule fin [of ?g1]) (use True ok1 in \<open>simp_all add: keeps_refl uog_refl\<close>)
      next
        case nc: False
        show ?thesis
        proof (cases "opt_disconnectLinks opt")
          case True
          let ?ls = "connected_ids ?g1 i default_query"
          have live: "\<forall>l \<in> set ?ls. l \<notin> ?P \<and> (\<exists>c. getCell ?g1 l = Some c \<and> isLink c)"
            using connected_ids_live [OF ok1] by blast
          have dl: "disconnectLinks c ?g1 = fold_outcome (disconnectLink c) (map (getCell ?g1) ?ls) ?g1"
            by (simp add: disconnectLinks_def getConnectedLinks_ids ci)
          obtain g2 where g2: "fold_outcome (disconnectLink c) (map (getCell ?g1) ?ls) ?g1 = Done g2"
            "\<forall>k. getCell g2 k = (if k \<in> set ?ls then map_option (disconnected (cell_id c)) (getCell ?g1 k) else getCell ?g1 k)"
            "map cell_id (cells g2) = map cell_id (cells ?g1)"
            "batches g2 = batches ?g1" "notifications g2 = notifications ?g1"
            "\<forall>P. index_ok P ?g1 \<and> set ?ls \<inter> P = {} \<longrightarrow> index_ok P g2"
            using disconnect_fold [of ?ls ?g1 ?g1 c] live distinct_connected_ids [of ?g1 i default_query]
            by blast
          have ok2: "index_ok ?P g2" using g2(6) ok1 live by blast
          have ids2: "cell_id ` set (cells g2) = cell_id ` set (cells ?g1)"
            using g2(3) by (metis image_set)
          have k2: "keeps ?P ?g1 g2"
            unfolding keeps_def using g2(2,4,5) ids2 live by auto
          show ?thesis unfolding step
            by (rule fin [of g2]) (use True nc dl g2(1) ok2 k2 in \<open>simp_all add: cascades_def\<close>)
        next
          case False
          have B: "\<exists>g'. invoke_remove n opt (getConnectedLinks ?g1 c default_query) ?g1 = Done g' \<and> index_ok ?P g'
              \<and> (\<forall>l. Some l \<in> set (getConnectedLinks ?g1 c default_query) \<longrightarrow> getCell g' (cell_id l) = None)
              \<and> keeps ?P ?g1 g' \<and> (cascades opt \<longrightarrow> unchanged_or_gone ?g1 g')"
          proof (rule invoke_remove_ok [OF Suc ok1 _ cd1])
            show "\<forall>entry\<in>set (getConnectedLinks ?g1 c default_query). \<exists>l. entry = Some l \<and> cell_id l \<notin> ?P"
            proof
              fix entry assume "entry \<in> set (getConnectedLinks ?g1 c default_query)"
              then obtain l where l: "l \<in> set (connected_ids ?g1 i default_query)" "entry = getCell ?g1 l"
                by (auto simp: getConnectedLinks_ids ci)
              then obtain d where d: "getCell ?g1 l = Some d" "l \<notin> ?P"
                using connected_ids_live [OF ok1 l(1)] by blast
              then have "cell_id d = l" using getCell_Some by blast
              with d l show "\<exists>l. entry = Some l \<and> cell_id l \<notin> ?P" by auto
            qed
          qed
          then obtain g2 where g2: "invoke_remove n opt (getConnectedLinks ?g1 c default_query) ?g1 = Done g2"
             "index_ok ?P g2" "keeps ?P ?g1 g2" "cascades opt \<longrightarrow> unchanged_or_gone ?g1 g2"
            by blast
          show ?thesis unfolding step
            by (rule fin [of g2]) (use False nc g2 in simp_all)
        qed
      qed
    qed
  qed
qed

lemma index_consistent_iff: "index_consistent g \<longleftrightarrow> index_ok {} g"
  by (simp add: index_consistent_def index_ok_def isElement_def getOutboundEdges_def getInboundEdges_def)

lemma index_ok_cong: "cells g = cells g' \<Longrightarrow> al g = al g' \<Longrightarrow> index_ok P g = index_ok P g'"
  by (simp add: index_ok_def getCell_def)

lemma index_ok_empty: "index_ok {} empty_graph"
  by (simp add: index_ok_def empty_graph_def empty_al_def getCell_def bucket_def)

lemma index_ok_fold_add: "index_ok {} g \<Longrightarrow> index_ok {} (fold collection_add cs g)"
  by (induction cs arbitrary: g) (auto intro: index_ok_collection_add)

lemma index_ok_reset: "index_ok {} (collection_reset cs g)"
  using index_ok_fold_add [OF index_ok_empty, of cs] reset_eq_fold_add [of cs g]
    index_ok_cong [of "collection_reset cs g" "fold collection_add cs empty_graph" "{}"]
  by simp

lemma card_ids_le: "card (cell_id ` set (cells g) - {}) < Suc (length (cells g))"
proof -
  have "card (cell_id ` set (cells g)) \<le> card (set (cells g))" by (rule card_image_le) simp
  also have "\<dots> \<le> length (cells g)" by (rule card_length)
  finally show ?thesis by simp
qed

lemma apply_operation_ok:
  assumes "index_ok {} g"
  shows "\<exists>g'. (apply_operation oper g = Done g' \<or> apply_operation oper g = Throw TypeError g') \<and> index_ok {} g'"
proof (cases oper)
  case (Add c)
  then show ?thesis using assms index_ok_collection_add [of "{}" g c] by (simp add: apply_operation_def)
next
  case (Remove i opt)
  have "removal_ok (Suc (length (cells g))) opt" by (rule removal_ok_all)
  then obtain g' where "cell_remove (Suc (length (cells g))) opt i g = Done g'" "index_ok {} g'"
    using assms card_ids_le [of g] unfolding removal_ok_def by blast
  then show ?thesis using Remove by (auto simp: apply_operation_def)
next
  case (Reset cs)
  then show ?thesis using index_ok_reset [of cs g] by (simp add: apply_operation_def)
next
  case (SetSource i e)
  show ?thesis
  proof (cases "getCell g i")
    case None
    then show ?thesis using SetSource assms by (simp add: apply_operation_def link_set_def)
  next
    case (Some c)
    show ?thesis
    proof (cases c)
      case (Element j a)
      then show ?thesis using Some SetSource assms by (simp add: apply_operation_def link_set_def)
    next
      case (Link j s t a)
      then show ?thesis
        using link_set_Link [of g i j s t a Source e] Some SetSource assms
        by (auto simp: apply_operation_def)
    qed
  qed
next
  case (SetTarget i e)
  show ?thesis
  proof (cases "getCell g i")
    case None
    then show ?thesis using SetTarget assms by (simp add: apply_operation_def link_set_def)
  next
    case (Some c)
    show ?thesis
    proof (cases c)
      case (Element j a)
      then show ?thesis using Some SetTarget assms by (simp add: apply_operation_def link_set_def)
    next
      case (Link j s t a)
      then show ?thesis
        using link_set_Link [of g i j s t a Target e] Some SetTarget assms
        by (auto simp: apply_operation_def)
    qed
  qed
qed

lemma run_operations_ok:
  assumes "index_ok {} g"
  shows "\<exists>g'. (fold_outcome apply_operation ops g = Done g' \<or> fold_outcome apply_operation ops g = Throw TypeError g')
            \<and> index_ok {} g'"
  using assms
proof (induction ops arbitrary: g)
  case Nil
  then show ?case by simp
next
  case (Cons oper ops)
  obtain g1 where g1: "apply_operation oper g = Done g1 \<or> apply_operation oper g = Throw TypeError g1" "index_ok {} g1"
    using apply_operation_ok [OF Cons.prems] by blast
  from g1(1) show ?case
  proof
    assume d: "apply_operation oper g = Done g1"
    then show ?thesis using Cons.IH [OF g1(2)] by simp
  next
    assume "apply_operation oper g = Throw TypeError g1"
    then show ?thesis using g1(2) by auto
  qed
qed

text \<open>
  Claim C1, as the code has it, for cells whose ids and endpoint ids are keys (none of
  them is the name of a property that \<open>Object.prototype\<close> holds: the index is kept
  in plain objects, and under such a name the handlers find the inherited object and
  write the edge on it). After every sequence of add, remove, reset and
  endpoint-change operations on the cell collection, started from the empty graph (an
  operation that throws ends the sequence, with the graph as it was at the throw):
  the ids of the collection are distinct; the node set is exactly the set of ids of the
  elements in the collection and the edge set the set of ids of its links; a link id is
  in the bucket \<open>out[s]\<close> exactly when the collection holds a link with that id whose
  source id is \<open>s\<close>, and in \<open>in[t]\<close> exactly when its target id is \<open>t\<close>. So a
  cell that was removed is in no bucket and in neither set. What does not hold is that
  the keys of the buckets are ids of cells of the collection: see the counterexample.
\<close>

theorem index_consistency:
  "\<exists>g. (fold_outcome apply_operation ops empty_graph = Done g
        \<or> fold_outcome apply_operation ops empty_graph = Throw TypeError g)
      \<and> index_consistent g"
  using run_operations_ok [OF index_ok_empty, of ops] by (simp add: index_consistent_iff)

text \<open>
  Claim C1 as stated fails: the index can name a cell that is not in the collection.
  Adding to the empty graph a link \<open>L\<close> whose source names \<open>X\<close> gives the bucket
  \<open>out[X]\<close>, holding \<open>L\<close>, while no cell \<open>X\<close> is in the collection.
\<close>

theorem index_references_absent_cell:
  "(case fold_outcome apply_operation [Add (Link (key_of ''L'') (Ref (key_of ''X'')) NoEnd [])] empty_graph of
      Done g \<Rightarrow> getOutboundEdges g (key_of ''X'') = [(key_of ''L'')] \<and> al_out (al g) (key_of ''X'') \<noteq> None \<and> getCell g (key_of ''X'') = None
    | Throw e g \<Rightarrow> False
    | OutOfFuel \<Rightarrow> False)"
  by (simp add: apply_operation_def collection_add_def empty_graph_def empty_al_def Let_def
      getOutboundEdges_def bucket_def bucket_add_def put_key_def getCell_def)

section \<open>Reset and incremental build\<close>

lemma getConnectedLinks_cong:
  "cells g = cells g' \<Longrightarrow> al g = al g' \<Longrightarrow> getConnectedLinks g m opt = getConnectedLinks g' m opt"
  by (simp add: getConnectedLinks_ids connected_ids_def getOutboundEdges_def getInboundEdges_def
      getCell_def cong: map_cong)

lemma getNeighbors_cong:
  assumes "cells g = cells g'" "al g = al g'"
  shows "getNeighbors g m opt = getNeighbors g' m opt"
proof -
  have gc: "getCell g i = getCell g' i" for i using assms by (simp add: getCell_def)
  have an: "addNeighbor g = addNeighbor g'"
    by (intro ext) (simp add: addNeighbor_def gc split: endpoint.split)
  have nl: "neighborsOfLink g = neighborsOfLink g'"
    by (intro ext, unfold neighborsOfLink_def an, rule refl)
  have oe: "addOwnEnd g = addOwnEnd g'"
    by (intro ext) (simp add: addOwnEnd_def gc split: option.split)
  have cl: "getConnectedLinks g m opt = getConnectedLinks g' m opt"
    by (rule getConnectedLinks_cong [OF assms])
  show ?thesis
    by (unfold getNeighbors_def nl oe cl, rule refl)
qed

text \<open>
  Claim C2. Resetting the collection of any graph to a list of cells leaves the same
  cells and the same adjacency list as adding the cells of the list one by one to the
  empty graph, so every adjacency query answers the same in both: the outbound and
  inbound edges of a node, membership in the node and edge sets, the connected links
  and the neighbours of a cell.
\<close>

theorem reset_rebuild_equivalence:
  "cells (collection_reset cs g) = cells (fold collection_add cs empty_graph)
   \<and> al (collection_reset cs g) = al (fold collection_add cs empty_graph)
   \<and> getOutboundEdges (collection_reset cs g) n = getOutboundEdges (fold collection_add cs empty_graph) n
   \<and> getInboundEdges (collection_reset cs g) n = getInboundEdges (fold collection_add cs empty_graph) n
   \<and> (n \<in> al_nodes (al (collection_reset cs g)) \<longleftrightarrow> n \<in> al_nodes (al (fold collection_add cs empty_graph)))
   \<and> (n \<in> al_edges (al (collection_reset cs g)) \<longleftrightarrow> n \<in> al_edges (al (fold collection_add cs empty_graph)))
   \<and> getConnectedLinks (collection_reset cs g) m opt
       = getConnectedLinks (fold collection_add cs empty_graph) m opt
   \<and> getNeighbors (collection_reset cs g) m opt = getNeighbors (fold collection_add cs empty_graph) m opt"
proof -
  have eq: "cells (collection_reset cs g) = cells (fold collection_add cs empty_graph)"
           "al (collection_reset cs g) = al (fold collection_add cs empty_graph)"
    using reset_eq_fold_add [of cs g] by simp_all
  show ?thesis
    using eq getConnectedLinks_cong [OF eq] getNeighbors_cong [OF eq]
    by (simp add: getOutboundEdges_def getInboundEdges_def)
qed

section \<open>Clearing an empty graph\<close>

text \<open>
  Claim C10. \<open>clear\<close> on a graph whose collection is empty returns at once, whatever
  the options and the budget: the outcome is the graph itself, so no \<open>batch:start\<close>
  or \<open>batch:stop\<close> is notified (the list of notifications is the same), the counter
  of the batch \<open>clear\<close> is not touched, and the collection and the adjacency list are
  as they were.
\<close>

theorem clear_empty_returns_unchanged:
  assumes "cells g = []"
  shows "clear fuel opt g = Done g
       \<and> (\<forall>g'. clear fuel opt g = Done g' \<longrightarrow>
             notifications g' = notifications g \<and> batches g' = batches g
           \<and> cells g' = cells g \<and> al g' = al g)"
  using assms by (simp add: clear_def)

theorem clear_empty_returns_unchanged_witness:
  "cells empty_graph = []
   \<and> clear 0 \<lparr> opt_clear = False, opt_disconnectLinks = False \<rparr> empty_graph = Done empty_graph
   \<and> notifications empty_graph = []"
proof -
  have e: "cells empty_graph = []" by (simp add: empty_graph_def)
  show ?thesis
    using e clear_empty_returns_unchanged [OF e, of 0 "\<lparr> opt_clear = False, opt_disconnectLinks = False \<rparr>"]
    by (simp add: empty_graph_def)
qed

section \<open>Validation in addCell\<close>

text \<open>
  Claim C8. For a cell whose \<open>type\<close> attribute is not a string (another value, or
  none), \<open>addCell\<close> throws the type error of \<open>_prepareCell\<close>, and the graph at the
  throw is the graph it was called on: the cell is not in the collection because of the
  call and the adjacency list has no new entry.
\<close>

theorem addCell_validation_atomic:
  assumes "\<forall>ty. map_of (init_attrs ci) (key_of ''type'') \<noteq> Some (Str ty)"
  shows "addCell en ci g = Throw TypeError g
       \<and> (\<forall>e g'. addCell en ci g = Throw e g' \<longrightarrow>
             cells g' = cells g \<and> al g' = al g \<and> getCell g' (init_id ci) = getCell g (init_id ci))"
proof -
  have "prepareCell z b ci = Inl TypeError" for z b
    using assms by (auto simp: prepareCell_def split: option.splits val.splits)
  then show ?thesis by (simp add: addCell_def)
qed

theorem addCell_validation_atomic_witness:
  "(\<forall>ty. map_of (init_attrs (Json (key_of ''A'') None None [((key_of ''type''), Num 3)])) (key_of ''type'') \<noteq> Some (Str ty))
   \<and> addCell example_env (Json (key_of ''A'') None None [((key_of ''type''), Num 3)]) empty_graph = Throw TypeError empty_graph
   \<and> getCell empty_graph (key_of ''A'') = None"
proof -
  have h: "\<forall>ty. map_of (init_attrs (Json (key_of ''A'') None None [((key_of ''type''), Num 3)])) (key_of ''type'') \<noteq> Some (Str ty)"
    by simp
  show ?thesis
    using h addCell_validation_atomic [OF h, of example_env empty_graph]
    by (simp add: getCell_def empty_graph_def)
qed

section \<open>Replacing a cell\<close>










lemma getCell_cells_cong: "cells g = cells g' \<Longrightarrow> getCell g i = getCell g' i"
  by (simp add: getCell_def)


section \<open>Self-loops\<close>

lemma self_loop_in_buckets:
  assumes "index_ok P g" "getCell g l = Some (Link l (Ref e) (Ref e) a)" "Rep_key e \<noteq> []" "l \<notin> P"
  shows "l \<in> set (getOutboundEdges g e)" "l \<in> set (getInboundEdges g e)"
  using assms unfolding index_ok_def getOutboundEdges_def getInboundEdges_def by auto

lemma count_list_map_inj:
  assumes "\<And>k. k \<in> set xs \<Longrightarrow> (f k = y \<longleftrightarrow> k = l)"
  shows "count_list (map f xs) y = count_list xs l"
  using assms by (induction xs) auto

lemma distinct_count_one: "distinct xs \<Longrightarrow> x \<in> set xs \<Longrightarrow> count_list xs x = 1"
  by (induction xs) auto

lemma self_loop_connected_once:
  assumes "index_ok {} g" "getCell g l = Some (Link l (Ref e) (Ref e) a)" "Rep_key e \<noteq> []"
    "directions opt \<noteq> (False, False)" "cell_id model = e"
  shows "count_list (getConnectedLinks g model opt) (Some (Link l (Ref e) (Ref e) a)) = 1"
proof -
  let ?ids = "connected_ids g e opt"
  have mem: "l \<in> set ?ids"
    using self_loop_in_buckets [OF assms(1,2,3)] assms(4)
    by (cases "directions opt") (auto simp: set_connected_ids)
  have inj: "getCell g k = Some (Link l (Ref e) (Ref e) a) \<longleftrightarrow> k = l" for k
    using assms(2) getCell_Some [of g k "Link l (Ref e) (Ref e) a"] by auto
  have "count_list (map (getCell g) ?ids) (Some (Link l (Ref e) (Ref e) a)) = count_list ?ids l"
    by (rule count_list_map_inj) (simp add: inj)
  then show ?thesis
    using distinct_count_one [OF distinct_connected_ids mem] assms(5)
    by (simp add: getConnectedLinks_ids)
qed

lemma addNeighbor_res_ok:
  assumes "addNeighbor g model loop e res = Inr res'" "res_ok g res"
  shows "res_ok g res' \<and> set res \<subseteq> set res'"
  using assms getCell_Some
  by (fastforce simp: addNeighbor_def res_ok_def split: endpoint.splits option.splits if_splits)

lemma addNeighbor_loop:
  assumes "addNeighbor g model True (Ref e) res = Inr res'" "getCell g e = Some el" "isElement el"
  shows "e \<in> cell_id ` set res'"
  using assms getCell_Some [OF assms(2)]
  by (auto simp: addNeighbor_def split: if_splits)

lemma addNeighbor_total:
  assumes "\<And>i. raw_id e = Some i \<Longrightarrow> getCell g i \<noteq> None"
  shows "\<exists>res'. addNeighbor g model loop e res = Inr res'"
  using assms by (cases e) (auto simp: addNeighbor_def split: option.splits)

lemma addNeighbor_if_total:
  assumes "\<And>i. raw_id e = Some i \<Longrightarrow> getCell g i \<noteq> None"
  shows "\<exists>res'. (if d then addNeighbor g model loop e res else Inr res) = Inr res'"
  using addNeighbor_total [OF assms] by (cases d) auto

lemma neighborsOfLink_Link:
  "neighborsOfLink g model dirs (Some (Link j s t a)) res =
     (case (if fst dirs then addNeighbor g model (hasLoop (Link j s t a)) s res else Inr res) of
        Inl e \<Rightarrow> Inl e
      | Inr res1 \<Rightarrow>
          (if snd dirs then addNeighbor g model (hasLoop (Link j s t a)) t res1 else Inr res1))"
  by (simp add: neighborsOfLink_def del: hasLoop.simps)

lemma neighborsOfLink_res_ok:
  assumes "neighborsOfLink g model dirs entry res = Inr res'" "res_ok g res"
  shows "res_ok g res' \<and> set res \<subseteq> set res'"
proof -
  obtain j s t a where e: "entry = Some (Link j s t a)"
    using assms(1) by (auto simp: neighborsOfLink_def split: option.splits cell.splits)
  obtain res1 where r1: "(if fst dirs then addNeighbor g model (hasLoop (Link j s t a)) s res else Inr res) = Inr res1"
     and r2: "(if snd dirs then addNeighbor g model (hasLoop (Link j s t a)) t res1 else Inr res1) = Inr res'"
    using assms(1) e by (auto simp: neighborsOfLink_def split: sum.splits)
  have 1: "res_ok g res1 \<and> set res \<subseteq> set res1"
    using r1 assms(2) addNeighbor_res_ok by (auto split: if_splits)
  have 2: "res_ok g res' \<and> set res1 \<subseteq> set res'"
    using r2 1 addNeighbor_res_ok by (auto split: if_splits)
  show ?thesis using 1 2 by blast
qed

lemma neighborsOfLink_loop:
  assumes "neighborsOfLink g model dirs (Some (Link l (Ref e) (Ref e) a)) res = Inr res'"
    "res_ok g res" "getCell g e = Some el" "isElement el" "Rep_key e \<noteq> []" "dirs \<noteq> (False, False)"
  shows "e \<in> cell_id ` set res'"
proof -
  have lp: "hasLoop (Link l (Ref e) (Ref e) a) = True" using assms(5) by simp
  have "(case (if fst dirs then addNeighbor g model True (Ref e) res else Inr res) of
             Inl e \<Rightarrow> Inl e
           | Inr res1 \<Rightarrow> (if snd dirs then addNeighbor g model True (Ref e) res1 else Inr res1)) = Inr res'"
    using assms(1) by (simp only: neighborsOfLink_Link lp)
  then obtain res1 where r1: "(if fst dirs then addNeighbor g model True (Ref e) res else Inr res) = Inr res1"
     and r2: "(if snd dirs then addNeighbor g model True (Ref e) res1 else Inr res1) = Inr res'"
    by (auto split: sum.splits)
  have ok1: "res_ok g res1" using r1 assms(2) addNeighbor_res_ok by (auto split: if_splits)
  show ?thesis
  proof (cases "snd dirs")
    case True
    then show ?thesis using r2 addNeighbor_loop [OF _ assms(3,4)] by simp
  next
    case False
    then have f: "fst dirs" using assms(6) by (cases dirs) auto
    have "res' = res1" using r2 False by simp
    then show ?thesis using r1 f addNeighbor_loop [OF _ assms(3,4)] by simp
  qed
qed

lemma fold_err_res_ok:
  assumes "fold_err (neighborsOfLink g model dirs) entries res = Inr res'" "res_ok g res"
  shows "res_ok g res' \<and> set res \<subseteq> set res'"
  using assms
proof (induction entries arbitrary: res)
  case Nil
  then show ?case by simp
next
  case (Cons entry entries)
  obtain r1 where r1: "neighborsOfLink g model dirs entry res = Inr r1"
      "fold_err (neighborsOfLink g model dirs) entries r1 = Inr res'"
    using Cons.prems(1) by (auto split: sum.splits)
  have "res_ok g r1 \<and> set res \<subseteq> set r1" using neighborsOfLink_res_ok [OF r1(1) Cons.prems(2)] .
  then show ?case using Cons.IH [OF r1(2)] by blast
qed

lemma fold_err_loop:
  assumes "fold_err (neighborsOfLink g model dirs) entries res = Inr res'" "res_ok g res"
    "Some (Link l (Ref e) (Ref e) a) \<in> set entries"
    "getCell g e = Some el" "isElement el" "Rep_key e \<noteq> []" "dirs \<noteq> (False, False)"
  shows "e \<in> cell_id ` set res'"
  using assms(1,2,3)
proof (induction entries arbitrary: res)
  case Nil
  then show ?case by simp
next
  case (Cons entry entries)
  obtain r1 where r1: "neighborsOfLink g model dirs entry res = Inr r1"
      "fold_err (neighborsOfLink g model dirs) entries r1 = Inr res'"
    using Cons.prems(1) by (auto split: sum.splits)
  have ok1: "res_ok g r1" using neighborsOfLink_res_ok [OF r1(1) Cons.prems(2)] by blast
  show ?case
  proof (cases "entry = Some (Link l (Ref e) (Ref e) a)")
    case True
    then have "e \<in> cell_id ` set r1"
      using neighborsOfLink_loop [OF _ Cons.prems(2) assms(4,5,6,7)] r1(1) by blast
    moreover have "set r1 \<subseteq> set res'" using fold_err_res_ok [OF r1(2) ok1] by blast
    ultimately show ?thesis by blast
  next
    case False
    then have "Some (Link l (Ref e) (Ref e) a) \<in> set entries" using Cons.prems(3) by simp
    then show ?thesis using Cons.IH [OF r1(2) ok1] by blast
  qed
qed

lemma fold_err_total:
  assumes "\<forall>entry \<in> set entries. \<forall>res. \<exists>res'. f entry res = Inr res'"
  shows "\<exists>res'. fold_err f entries res = Inr res'"
  using assms
proof (induction entries arbitrary: res)
  case Nil
  then show ?case by simp
next
  case (Cons entry entries)
  obtain r1 where "f entry res = Inr r1" using Cons.prems by fastforce
  then show ?case using Cons.IH [of r1] Cons.prems by simp
qed

lemma neighborsOfLink_total:
  assumes "endpoints_resolve g" "getCell g k = Some c" "isLink c"
  shows "\<exists>res'. neighborsOfLink g model dirs (getCell g k) res = Inr res'"
proof -
  obtain j s t a where c: "c = Link j s t a" using assms(3) by (cases c) auto
  have cin: "c \<in> set (cells g)" using assms(2) getCell_Some by blast
  have rs: "getCell g i \<noteq> None" if "raw_id s = Some i" for i
    using assms(1) cin c that unfolding endpoints_resolve_def by (cases s) fastforce+
  have rt: "getCell g i \<noteq> None" if "raw_id t = Some i" for i
    using assms(1) cin c that unfolding endpoints_resolve_def by (cases t) fastforce+
  obtain res1 where r1: "(if fst dirs then addNeighbor g model (hasLoop c) s res else Inr res) = Inr res1"
    using addNeighbor_if_total [of s g "fst dirs" model "hasLoop c" res] rs by blast
  obtain res2 where r2: "(if snd dirs then addNeighbor g model (hasLoop c) t res1 else Inr res1) = Inr res2"
    using addNeighbor_if_total [of t g "snd dirs" model "hasLoop c" res1] rt by blast
  show ?thesis
    unfolding assms(2) c neighborsOfLink_Link using r1 r2 unfolding c by simp
qed

lemma getNeighbors_total:
  assumes "index_ok {} g" "endpoints_resolve g"
  shows "\<exists>ns. getNeighbors g model opt = Inr ns"
proof -
  have "\<forall>entry \<in> set (getConnectedLinks g model opt). \<forall>res. \<exists>res'.
          neighborsOfLink g model (directions opt) entry res = Inr res'"
  proof (intro ballI allI)
    fix entry res
    assume "entry \<in> set (getConnectedLinks g model opt)"
    then obtain k where k: "k \<in> set (connected_ids g (cell_id model) opt)" "entry = getCell g k"
      by (auto simp: getConnectedLinks_ids)
    obtain c where c: "getCell g k = Some c" "isLink c"
      using connected_ids_live [OF assms(1) k(1)] by blast
    show "\<exists>res'. neighborsOfLink g model (directions opt) entry res = Inr res'"
      using neighborsOfLink_total [OF assms(2) c] k(2) by simp
  qed
  then have "\<exists>r. fold_err (neighborsOfLink g model (directions opt)) (getConnectedLinks g model opt) [] = Inr r"
    by (rule fold_err_total)
  then obtain r where "fold_err (neighborsOfLink g model (directions opt)) (getConnectedLinks g model opt) [] = Inr r"
    by (elim exE)
  then show ?thesis by (cases model) (simp_all add: getNeighbors_def)
qed

text \<open>
  A self-loop where every link names cells. In a graph whose index is consistent, let a
  link have the id of one element, non-empty, as its source and as its target. For every option object that
  leaves a direction on, \<open>getConnectedLinks\<close> of the element holds the link exactly
  once; whenever \<open>getNeighbors\<close> of the element returns, the result holds exactly one
  cell with the element's id, the element itself; and it does return when every
  endpoint id of the graph's links names a cell of the graph.
\<close>

theorem self_loop_once:
  assumes "index_consistent g"
    and "getCell g e = Some (Element e b)"
    and "getCell g l = Some (Link l (Ref e) (Ref e) a)"
    and "Rep_key e \<noteq> []"
    and "directions opt \<noteq> (False, False)"
  shows "count_list (getConnectedLinks g (Element e b) opt) (Some (Link l (Ref e) (Ref e) a)) = 1
       \<and> (\<forall>ns. getNeighbors g (Element e b) opt = Inr ns \<longrightarrow>
              count_list (map cell_id ns) e = 1 \<and> Element e b \<in> set ns)
       \<and> (endpoints_resolve g \<longrightarrow> (\<exists>ns. getNeighbors g (Element e b) opt = Inr ns))"
proof -
  have ok: "index_ok {} g" using assms(1) by (simp add: index_consistent_iff)
  have one: "count_list (getConnectedLinks g (Element e b) opt) (Some (Link l (Ref e) (Ref e) a)) = 1"
    by (rule self_loop_connected_once [OF ok assms(3,4,5)]) simp
  have nb: "count_list (map cell_id ns) e = 1 \<and> Element e b \<in> set ns"
    if ns: "getNeighbors g (Element e b) opt = Inr ns" for ns
  proof -
    have fe: "fold_err (neighborsOfLink g (Element e b) (directions opt))
                (getConnectedLinks g (Element e b) opt) [] = Inr ns"
      using ns by (auto simp: getNeighbors_def split: sum.splits)
    have r0: "res_ok g []" by (simp add: res_ok_def)
    have rk: "res_ok g ns" using fold_err_res_ok [OF fe r0] by blast
    have "Some (Link l (Ref e) (Ref e) a) \<in> set (getConnectedLinks g (Element e b) opt)"
      using one by (metis count_list_0_iff zero_neq_one)
    then have mem: "e \<in> cell_id ` set ns"
      using fold_err_loop [OF fe r0 _ assms(2) _ assms(4,5)] by (simp add: isElement_def)
    then obtain c where c: "c \<in> set ns" "cell_id c = e" by auto
    then have "c = Element e b" using rk assms(2) unfolding res_ok_def by fastforce
    moreover have "count_list (map cell_id ns) e = 1"
      using rk mem unfolding res_ok_def by (intro distinct_count_one) auto
    ultimately show ?thesis using c by blast
  qed
  show ?thesis using one nb getNeighbors_total [OF ok] by blast
qed

lemma loop_graph_cells:
  "cells loop_graph = [Element (key_of ''E'') [((key_of ''type''), Str ''standard.Rectangle'')],
      Link (key_of ''L'') (Ref (key_of ''E'')) (Ref (key_of ''E'')) [((key_of ''type''), Str ''standard.Link'')]]"
  by (simp add: loop_graph_def collection_add_def empty_graph_def)

lemma loop_graph_facts:
  "index_consistent loop_graph"
  "getCell loop_graph (key_of ''E'') = Some (Element (key_of ''E'') [((key_of ''type''), Str ''standard.Rectangle'')])"
  "getCell loop_graph (key_of ''L'') = Some (Link (key_of ''L'') (Ref (key_of ''E'')) (Ref (key_of ''E'')) [((key_of ''type''), Str ''standard.Link'')])"
  "Rep_key (key_of ''E'') \<noteq> []"
  "directions default_query \<noteq> (False, False)"
  "endpoints_resolve loop_graph"
proof -
  show "index_consistent loop_graph"
    unfolding loop_graph_def index_consistent_iff by (rule index_ok_fold_add [OF index_ok_empty])
  show "getCell loop_graph (key_of ''E'') = Some (Element (key_of ''E'') [((key_of ''type''), Str ''standard.Rectangle'')])"
    by (simp add: getCell_def loop_graph_cells)
  show "getCell loop_graph (key_of ''L'') = Some (Link (key_of ''L'') (Ref (key_of ''E'')) (Ref (key_of ''E'')) [((key_of ''type''), Str ''standard.Link'')])"
    by (simp add: getCell_def loop_graph_cells)
  show "Rep_key (key_of ''E'') \<noteq> []" by simp
  show "directions default_query \<noteq> (False, False)" by (simp add: directions_def default_query_def)
  show "endpoints_resolve loop_graph"
    by (simp add: endpoints_resolve_def getCell_def loop_graph_cells)
qed

theorem self_loop_once_witness:
  "index_consistent loop_graph
   \<and> getCell loop_graph (key_of ''E'') = Some (Element (key_of ''E'') [((key_of ''type''), Str ''standard.Rectangle'')])
   \<and> getCell loop_graph (key_of ''L'') = Some (Link (key_of ''L'') (Ref (key_of ''E'')) (Ref (key_of ''E'')) [((key_of ''type''), Str ''standard.Link'')])
   \<and> directions default_query \<noteq> (False, False)
   \<and> endpoints_resolve loop_graph
   \<and> count_list (getConnectedLinks loop_graph (Element (key_of ''E'') [((key_of ''type''), Str ''standard.Rectangle'')]) default_query)
        (Some (Link (key_of ''L'') (Ref (key_of ''E'')) (Ref (key_of ''E'')) [((key_of ''type''), Str ''standard.Link'')])) = 1
   \<and> (\<exists>ns. getNeighbors loop_graph (Element (key_of ''E'') [((key_of ''type''), Str ''standard.Rectangle'')]) default_query = Inr ns
          \<and> count_list (map cell_id ns) (key_of ''E'') = 1
          \<and> Element (key_of ''E'') [((key_of ''type''), Str ''standard.Rectangle'')] \<in> set ns)"
  using loop_graph_facts self_loop_once [OF loop_graph_facts(1,2,3,4,5)]
  by blast

lemma loop_dangling_cells:
  "cells loop_dangling_graph =
     [Element (key_of ''E'') [],
      Link (key_of ''L'') (Ref (key_of ''E'')) (Ref (key_of ''E'')) [],
      Link (key_of ''EX'') (Ref (key_of ''E'')) (Ref (key_of ''X'')) []]"
  by (simp add: loop_dangling_graph_def collection_add_def empty_graph_def)

lemma loop_dangling_edges:
  "getOutboundEdges loop_dangling_graph (key_of ''E'') = [key_of ''L'', key_of ''EX'']"
  "getInboundEdges loop_dangling_graph (key_of ''E'') = [key_of ''L'']"
  by (simp_all add: loop_dangling_graph_def collection_add_def empty_graph_def empty_al_def Let_def
      getOutboundEdges_def getInboundEdges_def bucket_def bucket_add_def put_key_def)

lemma loop_dangling_connected:
  "getConnectedLinks loop_dangling_graph (Element (key_of ''E'') []) default_query =
     [Some (Link (key_of ''L'') (Ref (key_of ''E'')) (Ref (key_of ''E'')) []),
      Some (Link (key_of ''EX'') (Ref (key_of ''E'')) (Ref (key_of ''X'')) [])]"
  by (simp add: getConnectedLinks_def directions_def default_query_def addOutbounds_def
      addInbounds_def addEdge_def loop_dangling_edges getCell_def loop_dangling_cells)

lemma loop_dangling_neighbors:
  "getNeighbors loop_dangling_graph (Element (key_of ''E'') []) default_query = Inl TypeError"
  unfolding getNeighbors_def loop_dangling_connected
  by (simp add: neighborsOfLink_def addNeighbor_def directions_def default_query_def getCell_def
      loop_dangling_cells isElement_def)

text \<open>
  Claim C4 says that for every link from an element to itself \<open>getConnectedLinks\<close>
  of the element returns the link once and \<open>getNeighbors\<close> of the element returns
  the element once. The graph here holds the element \<open>E\<close>, the link \<open>L\<close> from
  \<open>E\<close> to \<open>E\<close> and the link \<open>EX\<close> from \<open>E\<close> to \<open>X\<close>, and no cell \<open>X\<close>.
  \<open>getConnectedLinks\<close> of \<open>E\<close> holds \<open>L\<close> once. \<open>getNeighbors\<close> of \<open>E\<close> puts
  \<open>E\<close> in its result at the link \<open>L\<close>, then comes to the link \<open>EX\<close>, gets
  \<open>undefined\<close> from \<open>getCell\<close> for \<open>X\<close> and calls \<open>isElement()\<close> on it, which
  throws: nothing is returned. It is the defect of the searches: the reducer tests the
  cell (\<open>targetElement &&\<close>) after the call of \<open>isElement()\<close>, while the end of the
  same function tests it before the call.
\<close>

theorem self_loop_neighbors_abort:
  "getCell loop_dangling_graph (key_of ''E'') = Some (Element (key_of ''E'') [])
   \<and> getCell loop_dangling_graph (key_of ''L'')
       = Some (Link (key_of ''L'') (Ref (key_of ''E'')) (Ref (key_of ''E'')) [])
   \<and> getCell loop_dangling_graph (key_of ''EX'')
       = Some (Link (key_of ''EX'') (Ref (key_of ''E'')) (Ref (key_of ''X'')) [])
   \<and> getCell loop_dangling_graph (key_of ''X'') = None
   \<and> count_list (getConnectedLinks loop_dangling_graph (Element (key_of ''E'') []) default_query)
        (Some (Link (key_of ''L'') (Ref (key_of ''E'')) (Ref (key_of ''E'')) [])) = 1
   \<and> getNeighbors loop_dangling_graph (Element (key_of ''E'') []) default_query = Inl TypeError"
  by (simp add: getCell_def loop_dangling_cells loop_dangling_connected loop_dangling_neighbors)

section \<open>Removing a cell with its links disconnected\<close>

text \<open>
  Claim C9. In a graph whose index is consistent, let a link have the id of one
  element, non-empty, as its source and as its target. Removing the element with the
  option \<open>disconnectLinks\<close> (and without \<open>clear\<close>) returns for every positive
  budget; the element is gone, and the link is the link it was with the point (0, 0) as
  its source and the reference to the removed element still as its target, so that the
  link is still in the bucket \<open>in\<close> of the removed element's id, and in no bucket
  \<open>out\<close> of it.
\<close>

theorem disconnect_self_loop_keeps_target:
  assumes "index_consistent g"
    and "getCell g e = Some (Element e b)"
    and "getCell g l = Some (Link l (Ref e) (Ref e) a)"
    and "Rep_key e \<noteq> []"
  shows "\<exists>g'. cell_remove (Suc n) \<lparr> opt_clear = False, opt_disconnectLinks = True \<rparr> e g = Done g'
       \<and> getCell g' e = None
       \<and> getCell g' l = Some (Link l (Point 0 0) (Ref e) a)
       \<and> l \<in> set (getInboundEdges g' e) \<and> l \<notin> set (getOutboundEdges g' e)"
proof -
  let ?opt = "\<lparr> opt_clear = False, opt_disconnectLinks = True \<rparr>"
  let ?E = "Element e b"
  let ?g1 = "g\<lparr> al := restructureOnRemove ?E (al g) \<rparr>"
  have ok: "index_ok {} g" using assms(1) by (simp add: index_consistent_iff)
  have ok1: "index_ok {e} ?g1" using index_ok_restructureOnRemove [OF ok assms(2)] by simp
  have le: "l \<noteq> e" using assms(2,3) by auto
  let ?ls = "connected_ids ?g1 e default_query"
  have l1: "getCell ?g1 l = Some (Link l (Ref e) (Ref e) a)" using assms(3) by simp
  have lin: "l \<in> set ?ls"
    using self_loop_in_buckets [OF ok1 l1 assms(4)] le
    by (simp add: set_connected_ids directions_def default_query_def)
  have live: "\<forall>k \<in> set ?ls. k \<notin> {e} \<and> (\<exists>c. getCell ?g1 k = Some c \<and> isLink c)"
    using connected_ids_live [OF ok1] by blast
  obtain g2 where g2: "fold_outcome (disconnectLink ?E) (map (getCell ?g1) ?ls) ?g1 = Done g2"
      "\<forall>k. getCell g2 k = (if k \<in> set ?ls then map_option (disconnected (cell_id ?E)) (getCell ?g1 k) else getCell ?g1 k)"
      "\<forall>P. index_ok P ?g1 \<and> set ?ls \<inter> P = {} \<longrightarrow> index_ok P g2"
    using disconnect_fold [of ?ls ?g1 ?g1 ?E] live distinct_connected_ids [of ?g1 e default_query]
    by blast
  have dl: "disconnectLinks ?E ?g1 = Done g2"
    using g2(1) by (simp add: disconnectLinks_def getConnectedLinks_ids)
  let ?g3 = "collection_remove e g2"
  have res: "cell_remove (Suc n) ?opt e g = Done ?g3"
    using assms(2) dl by simp
  have ok2: "index_ok {e} g2" using g2(3) ok1 live by blast
  have ok3: "index_ok {} ?g3" using index_ok_collection_remove [OF ok2] .
  have gl2: "getCell g2 l = Some (Link l (Point 0 0) (Ref e) a)"
    using g2(2) lin l1 by simp
  have gl3: "getCell ?g3 l = Some (Link l (Point 0 0) (Ref e) a)"
    using gl2 le by (simp add: getCell_collection_remove)
  have ge3: "getCell ?g3 e = None" by (simp add: getCell_collection_remove)
  have "l \<in> set (getInboundEdges ?g3 e)" "l \<notin> set (getOutboundEdges ?g3 e)"
    using ok3 gl3 assms(4) unfolding index_ok_def getInboundEdges_def getOutboundEdges_def
    by auto
  with res gl3 ge3 show ?thesis by blast
qed

theorem disconnect_self_loop_keeps_target_witness:
  "index_consistent loop_graph
   \<and> getCell loop_graph (key_of ''E'') = Some (Element (key_of ''E'') [((key_of ''type''), Str ''standard.Rectangle'')])
   \<and> getCell loop_graph (key_of ''L'') = Some (Link (key_of ''L'') (Ref (key_of ''E'')) (Ref (key_of ''E'')) [((key_of ''type''), Str ''standard.Link'')])
   \<and> (\<exists>g'. cell_remove (Suc 0) \<lparr> opt_clear = False, opt_disconnectLinks = True \<rparr> (key_of ''E'') loop_graph = Done g'
         \<and> getCell g' (key_of ''E'') = None
         \<and> getCell g' (key_of ''L'') = Some (Link (key_of ''L'') (Point 0 0) (Ref (key_of ''E'')) [((key_of ''type''), Str ''standard.Link'')])
         \<and> (key_of ''L'') \<in> set (getInboundEdges g' (key_of ''E'')))"
  using loop_graph_facts(1,2,3) disconnect_self_loop_keeps_target [OF loop_graph_facts(1,2,3,4), of 0]
  by blast

section \<open>The searches\<close>

lemma justified_mono:
  "justified g opt it element calls c \<Longrightarrow> calls \<noteq> [] \<Longrightarrow> justified g opt it element (calls @ extra) c"
  by (auto simp: justified_def)

lemma calls_justified_snoc:
  assumes "calls_justified g opt it element calls" "justified g opt it element calls c"
  shows "calls_justified g opt it element (calls @ [(c, d)])"
  unfolding calls_justified_def
proof (intro allI impI)
  fix before c' d' after
  assume eq: "calls @ [(c, d)] = before @ (c', d') # after"
  show "justified g opt it element before c'"
  proof (cases after rule: rev_cases)
    case Nil
    then show ?thesis using eq assms(2) by simp
  next
    case (snoc after' x)
    then have "calls = before @ (c', d') # after'" using eq by simp
    then show ?thesis using assms(1) unfolding calls_justified_def by blast
  qed
qed

lemma inv_skip:
  assumes "search_inv g opt it element Q calls" "cell_id next \<in> called_ids calls"
    "Q' \<subseteq> Q" "Q \<subseteq> insert next Q'"
  shows "search_inv g opt it element Q' calls"
proof -
  have ne: "calls \<noteq> []" using assms(2) by (auto simp: called_ids_def)
  have "expanded_closed g opt it Q' calls"
    using assms unfolding search_inv_def expanded_closed_def by blast
  then show ?thesis using assms ne unfolding search_inv_def by blast
qed

lemma called_ids_snoc: "called_ids (calls @ [(c, d)]) = insert (cell_id c) (called_ids calls)"
  by (auto simp: called_ids_def)

lemma inv_prune:
  assumes "search_inv g opt it element Q calls" "next \<in> Q" "cell_id next \<notin> called_ids calls"
    "\<not> it next d" "Q' \<subseteq> Q" "Q \<subseteq> insert next Q'" "calls = [] \<longrightarrow> Q' = {}"
  shows "search_inv g opt it element Q' (calls @ [(next, d)])"
proof -
  have j: "justified g opt it element calls next" using assms(1,2) unfolding search_inv_def by blast
  have d: "distinct (map (cell_id \<circ> fst) (calls @ [(next, d)]))"
    using assms(1,3) unfolding search_inv_def called_ids_def by (auto simp: image_image)
  have c: "expanded_closed g opt it Q' (calls @ [(next, d)])"
    using assms(1,4,5,6) unfolding search_inv_def expanded_closed_def called_ids_snoc
    by (auto; blast)
  have q: "\<forall>c \<in> Q'. justified g opt it element (calls @ [(next, d)]) c"
  proof
    fix c assume cq: "c \<in> Q'"
    then have ne: "calls \<noteq> []" using assms(7) by auto
    have "justified g opt it element calls c" using assms(1,5) cq unfolding search_inv_def by blast
    then show "justified g opt it element (calls @ [(next, d)]) c" using ne by (rule justified_mono)
  qed
  have cj: "calls_justified g opt it element (calls @ [(next, d)])"
    using assms(1) j unfolding search_inv_def by (intro calls_justified_snoc) blast+
  show ?thesis using d c q cj unfolding search_inv_def by simp
qed

lemma inv_expand:
  assumes "search_inv g opt it element Q calls" "next \<in> Q" "cell_id next \<notin> called_ids calls"
    "it next d" "R \<subseteq> Q" "Q \<subseteq> insert next R" "calls = [] \<longrightarrow> R = {}"
  shows "search_inv g opt it element (R \<union> set (nbs g opt next)) (calls @ [(next, d)])"
proof -
  have j: "justified g opt it element calls next" using assms(1,2) unfolding search_inv_def by blast
  have d: "distinct (map (cell_id \<circ> fst) (calls @ [(next, d)]))"
    using assms(1,3) unfolding search_inv_def called_ids_def by (auto simp: image_image)
  have c: "expanded_closed g opt it (R \<union> set (nbs g opt next)) (calls @ [(next, d)])"
    using assms(1,5,6) unfolding search_inv_def expanded_closed_def called_ids_snoc
    by (auto; blast)
  have q: "\<forall>c \<in> R \<union> set (nbs g opt next). justified g opt it element (calls @ [(next, d)]) c"
  proof
    fix c assume cq: "c \<in> R \<union> set (nbs g opt next)"
    then show "justified g opt it element (calls @ [(next, d)]) c"
    proof
      assume cr: "c \<in> R"
      then have ne: "calls \<noteq> []" using assms(7) by auto
      have "justified g opt it element calls c" using assms(1,5) cr unfolding search_inv_def by blast
      then show ?thesis using ne by (rule justified_mono)
    next
      assume "c \<in> set (nbs g opt next)"
      then show ?thesis using assms(4) unfolding justified_def by auto
    qed
  qed
  have cj: "calls_justified g opt it element (calls @ [(next, d)])"
    using assms(1) j unfolding search_inv_def by (intro calls_justified_snoc) blast+
  show ?thesis using d c q cj unfolding search_inv_def by simp
qed

lemma bfs_loop_correct:
  "search_inv g opt it element (set queue) calls \<Longrightarrow> visited = called_ids calls
     \<Longrightarrow> (calls = [] \<longrightarrow> queue = [element] \<and> distance (cell_id element) = 0)
     \<Longrightarrow> (calls \<noteq> [] \<longrightarrow> hd calls = (element, 0))
     \<Longrightarrow> (queue = [] \<longrightarrow> calls \<noteq> [])
     \<Longrightarrow> (\<forall>c. \<exists>ns. getNeighbors g c opt = Inr ns)
     \<Longrightarrow> \<exists>res. bfs_loop g it opt queue visited distance calls = Inr res \<and> visit_ok g opt element it res"
proof (induction g it opt queue visited distance calls rule: bfs_loop.induct)
  case (1 g iteratee opt visited distance calls)
  then show ?case by (simp add: visit_ok_def search_inv_def)
next
  case (2 g iteratee opt "next" queue visited distance calls)
  let ?d = "distance (cell_id next)"
  let ?calls = "calls @ [(next, ?d)]"
  have hd': "hd ?calls = (element, 0)"
    using "2.prems"(3,4) by (cases calls) auto
  show ?case
  proof (cases "cell_id next \<in> visited")
    case True
    have ne: "calls \<noteq> []" using True "2.prems"(2) by (auto simp: called_ids_def)
    have inv': "search_inv g opt iteratee element (set queue) calls"
      using inv_skip [OF "2.prems"(1), of "next" "set queue"] True "2.prems"(2) by auto
    show ?thesis
      using "2.IH"(1) [OF True inv' "2.prems"(2)] ne "2.prems"(4,6) True by simp
  next
    case nv: False
    have nc: "cell_id next \<notin> called_ids calls" using nv "2.prems"(2) by simp
    have first: "calls = [] \<longrightarrow> set queue = {}" using "2.prems"(3) by auto
    have vis': "insert (cell_id next) visited = called_ids ?calls"
      using "2.prems"(2) by (simp add: called_ids_snoc)
    show ?thesis
    proof (cases "iteratee next ?d")
      case False
      have inv': "search_inv g opt iteratee element (set queue) ?calls"
        using inv_prune [OF "2.prems"(1) _ nc False _ _ first] by auto
      show ?thesis
        using "2.IH"(2) [OF nv _ inv' vis'] False nv hd' "2.prems"(6) by simp
    next
      case True
      obtain ns where ns: "getNeighbors g next opt = Inr ns" using "2.prems"(6) by blast
      then have nbs: "nbs g opt next = ns" by (simp add: nbs_def)
      have inv': "search_inv g opt iteratee element (set (queue @ ns)) ?calls"
        using inv_expand [OF "2.prems"(1) _ nc True _ _ first] nbs by auto
      show ?thesis
        using "2.IH"(3) [OF nv _ ns inv' vis'] True nv ns hd' "2.prems"(6) by simp
    qed
  qed
qed

lemma set_butlast_last: "q \<noteq> [] \<Longrightarrow> set q \<subseteq> insert (last q) (set (butlast q))"
  by (induction q) auto

lemma dfs_loop_correct:
  "search_inv g opt it element (set queue) calls \<Longrightarrow> visited = called_ids calls
     \<Longrightarrow> (calls = [] \<longrightarrow> queue = [element] \<and> distance (cell_id element) = 0)
     \<Longrightarrow> (calls \<noteq> [] \<longrightarrow> hd calls = (element, 0))
     \<Longrightarrow> (queue = [] \<longrightarrow> calls \<noteq> [])
     \<Longrightarrow> (\<forall>c. \<exists>ns. getNeighbors g c opt = Inr ns)
     \<Longrightarrow> \<exists>res. dfs_loop g it opt queue visited distance calls = Inr res \<and> visit_ok g opt element it res"
proof (induction g it opt queue visited distance calls rule: dfs_loop.induct)
  case (1 g iteratee opt queue visited distance calls)
  show ?case
  proof (cases "queue = []")
    case True
    then show ?thesis
      using "1.prems" by (subst dfs_loop.simps) (simp add: visit_ok_def search_inv_def)
  next
    case ne: False
    let ?next = "last queue"
    let ?rest = "butlast queue"
    let ?d = "distance (cell_id ?next)"
    let ?calls = "calls @ [(?next, ?d)]"
    have nin: "?next \<in> set queue" using ne by simp
    have sub: "set ?rest \<subseteq> set queue" by (rule set_butlast_subset)
    have sup: "set queue \<subseteq> insert ?next (set ?rest)" using ne by (rule set_butlast_last)
    have hd': "hd ?calls = (element, 0)"
      using "1.prems"(3,4) by (cases calls) auto
    show ?thesis
    proof (cases "cell_id ?next \<in> visited")
      case True
      have cne: "calls \<noteq> []" using True "1.prems"(2) by (auto simp: called_ids_def)
      have inv': "search_inv g opt iteratee element (set ?rest) calls"
        using inv_skip [OF "1.prems"(1) _ sub sup] True "1.prems"(2) by auto
      obtain res where "dfs_loop g iteratee opt ?rest visited distance calls = Inr res"
          "visit_ok g opt element iteratee res"
        using "1.IH"(1) [OF ne True inv' "1.prems"(2)] cne "1.prems"(4,6) by auto
      then show ?thesis using ne True by (subst dfs_loop.simps) simp
    next
      case nv: False
      have nc: "cell_id ?next \<notin> called_ids calls" using nv "1.prems"(2) by simp
      have first: "calls = [] \<longrightarrow> set ?rest = {}" using "1.prems"(3) by auto
      have vis': "insert (cell_id ?next) visited = called_ids ?calls"
        using "1.prems"(2) by (simp add: called_ids_snoc)
      show ?thesis
      proof (cases "iteratee ?next ?d")
        case False
        have inv': "search_inv g opt iteratee element (set ?rest) ?calls"
          using inv_prune [OF "1.prems"(1) nin nc False sub sup first] .
        obtain res where "dfs_loop g iteratee opt ?rest (insert (cell_id ?next) visited) distance ?calls = Inr res"
            "visit_ok g opt element iteratee res"
          using "1.IH"(2) [OF ne nv _ inv' vis'] False hd' "1.prems"(6) by auto
        then show ?thesis using ne nv False by (subst dfs_loop.simps) simp
      next
        case True
        obtain ns where ns: "getNeighbors g ?next opt = Inr ns" using "1.prems"(6) by blast
        then have nbs: "nbs g opt ?next = ns" by (simp add: nbs_def)
        have inv': "search_inv g opt iteratee element (set (?rest @ rev ns)) ?calls"
          using inv_expand [OF "1.prems"(1) nin nc True sub sup first] nbs by simp
        obtain res where "dfs_loop g iteratee opt (?rest @ rev ns) (insert (cell_id ?next) visited)
               (setDistances ?next ns distance) ?calls = Inr res"
            "visit_ok g opt element iteratee res"
          using "1.IH"(3) [OF ne nv _ ns inv' vis'] True hd' "1.prems"(6) by auto
        then show ?thesis using ne nv True ns by (subst dfs_loop.simps) simp
      qed
    qed
  qed
qed

lemma addOwnEnd_res_ok: "res_ok g res \<Longrightarrow> res_ok g (addOwnEnd g e res)"
  using getCell_Some
  by (fastforce simp: addOwnEnd_def res_ok_def split: option.splits)

lemma getNeighbors_graph_cells:
  assumes "getNeighbors g model opt = Inr ns"
  shows "res_ok g ns"
proof -
  obtain r where r: "fold_err (neighborsOfLink g model (directions opt)) (getConnectedLinks g model opt) [] = Inr r"
    using assms by (auto simp: getNeighbors_def split: sum.splits)
  have rk: "res_ok g r" using fold_err_res_ok [OF r] by (simp add: res_ok_def)
  show ?thesis
  proof (cases model)
    case (Element j a)
    then show ?thesis using assms r rk by (simp add: getNeighbors_def)
  next
    case (Link j s t a)
    then have "ns = (let n1 = (if fst (directions opt) then addOwnEnd g s r else r)
                    in (if snd (directions opt) then addOwnEnd g t n1 else n1))"
      using assms r by (simp add: getNeighbors_def)
    then show ?thesis using rk by (simp add: Let_def addOwnEnd_res_ok)
  qed
qed

lemma nbs_graph_cell:
  assumes "n \<in> set (nbs g opt c)"
  shows "getCell g (cell_id n) = Some n"
proof (cases "getNeighbors g c opt")
  case (Inl e)
  then show ?thesis using assms by (simp add: nbs_def)
next
  case (Inr ns)
  then have "n \<in> set ns" using assms by (simp add: nbs_def)
  then show ?thesis using getNeighbors_graph_cells [OF Inr] by (simp add: res_ok_def)
qed

lemma called_prefix_reachable:
  assumes "calls_justified g opt it element calls"
  shows "k \<le> length calls \<Longrightarrow> fst ` set (take k calls) \<subseteq> reachable g opt element"
proof (induction k)
  case 0
  then show ?case by simp
next
  case (Suc k)
  then have k: "k < length calls" by simp
  obtain c d where cd: "calls ! k = (c, d)" by (cases "calls ! k")
  have split: "calls = take k calls @ (c, d) # drop (Suc k) calls"
    using k cd by (metis id_take_nth_drop)
  have j: "justified g opt it element (take k calls) c"
    using assms split unfolding calls_justified_def by blast
  have ih: "fst ` set (take k calls) \<subseteq> reachable g opt element" using Suc by simp
  have "c \<in> reachable g opt element"
    using j unfolding justified_def
  proof
    assume "take k calls = [] \<and> c = element"
    then show ?thesis by (simp add: reachable_def)
  next
    assume "\<exists>p d. (p, d) \<in> set (take k calls) \<and> it p d \<and> c \<in> set (nbs g opt p)"
    then obtain p dp where p: "(p, dp) \<in> set (take k calls)" "c \<in> set (nbs g opt p)" by blast
    then have "p \<in> reachable g opt element" using ih by force
    then show ?thesis using p(2) unfolding reachable_def by (auto intro: rtrancl_into_rtrancl)
  qed
  moreover have "take (Suc k) calls = take k calls @ [(c, d)]"
    using k cd by (simp add: take_Suc_conv_app_nth)
  ultimately show ?case using ih by auto
qed

lemma called_graph_cells:
  assumes "calls_justified g opt it element calls" "getCell g (cell_id element) = Some element"
    "(c, d) \<in> set calls"
  shows "getCell g (cell_id c) = Some c"
proof -
  obtain before after where "calls = before @ (c, d) # after"
    using assms(3) by (meson split_list)
  then have "justified g opt it element before c"
    using assms(1) unfolding calls_justified_def by blast
  then show ?thesis using assms(2) nbs_graph_cell unfolding justified_def by blast
qed

lemma visit_all_reachable:
  assumes "visit_ok g opt element it calls" "getCell g (cell_id element) = Some element"
    "\<forall>c d. it c d"
  shows "fst ` set calls = reachable g opt element"
proof
  show "fst ` set calls \<subseteq> reachable g opt element"
    using called_prefix_reachable [of g opt it element calls "length calls"] assms(1)
    by (simp add: visit_ok_def)
next
  have cj: "calls_justified g opt it element calls" using assms(1) by (simp add: visit_ok_def)
  have cl: "expanded_closed g opt it {} calls" using assms(1) by (simp add: visit_ok_def)
  have "calls \<noteq> []" "hd calls = (element, 0)"
    using assms(1) by (simp_all add: visit_ok_def)
  then have "(element, 0) \<in> set calls" using hd_in_set [of calls] by simp
  then have start: "element \<in> fst ` set calls" by force
  have "n \<in> fst ` set calls" if "(element, n) \<in> {(c, n). n \<in> set (nbs g opt c)}\<^sup>*" for n
    using that
  proof (induction rule: rtrancl_induct)
    case base
    then show ?case by (rule start)
  next
    case (step p n)
    then obtain d where pd: "(p, d) \<in> set calls" by auto
    have nn: "n \<in> set (nbs g opt p)" using step by simp
    then have "cell_id n \<in> called_ids calls"
      using cl pd assms(3) unfolding expanded_closed_def by blast
    then obtain c' d' where c': "(c', d') \<in> set calls" "cell_id c' = cell_id n"
      by (auto simp: called_ids_def)
    have "Some c' = getCell g (cell_id c')" using called_graph_cells [OF cj assms(2) c'(1)] by simp
    also have "\<dots> = getCell g (cell_id n)" by (simp only: c'(2))
    also have "\<dots> = Some n" using nbs_graph_cell [OF nn] .
    finally have "c' = n" by simp
    then show ?case using c'(1) by force
  qed
  then show "reachable g opt element \<subseteq> fst ` set calls"
    by (auto simp: reachable_def)
qed

lemma search_inv_start: "search_inv g opt it element (set [element]) []"
  by (simp add: search_inv_def expanded_closed_def calls_justified_def justified_def)

text \<open>
  The searches where every link names cells. In a graph whose index is consistent and
  whose links name cells of the graph, \<open>bfs\<close> and \<open>dfs\<close> end and return for every
  start cell, iteratee and options (the searches are total functions, and their outcome
  is the list of the iteratee's calls, not an exception). The first call is on the start cell with
  distance 0; no two calls are on cells with one id; every neighbour of a cell for which
  the iteratee did not answer false was called as well; and every call but the first is
  on a neighbour of a cell that was called before it and for which the iteratee did not
  answer false, so the neighbours of a cell with the answer false are not put in
  the queue by that cell, while the cells left in the queue are worked off. For an
  iteratee that never answers false and a start cell of the graph, the cells called are
  exactly the cells that can be reached from the start.
\<close>

theorem searches_visit_reachable_once:
  assumes "index_consistent g" and "endpoints_resolve g"
  shows "(\<exists>calls. bfs g element iteratee opt = Inr calls
            \<and> visit_ok g opt element iteratee calls
            \<and> (getCell g (cell_id element) = Some element \<and> (\<forall>c d. iteratee c d)
                 \<longrightarrow> fst ` set calls = reachable g opt element))
       \<and> (\<exists>calls. dfs g element iteratee opt = Inr calls
            \<and> visit_ok g opt element iteratee calls
            \<and> (getCell g (cell_id element) = Some element \<and> (\<forall>c d. iteratee c d)
                 \<longrightarrow> fst ` set calls = reachable g opt element))"
proof -
  have ok: "index_ok {} g" using assms(1) by (simp add: index_consistent_iff)
  have total: "\<forall>c. \<exists>ns. getNeighbors g c opt = Inr ns"
    using getNeighbors_total [OF ok assms(2)] by blast
  obtain cb where cb: "bfs g element iteratee opt = Inr cb" "visit_ok g opt element iteratee cb"
    using bfs_loop_correct [OF search_inv_start, where visited = "{}"
        and distance = "(\<lambda>i. 0)(cell_id element := 0)" and g = g and opt = opt and it = iteratee
        and element = element] total
    by (auto simp: bfs_def called_ids_def)
  obtain cd where cd: "dfs g element iteratee opt = Inr cd" "visit_ok g opt element iteratee cd"
    using dfs_loop_correct [OF search_inv_start, where visited = "{}"
        and distance = "(\<lambda>i. 0)(cell_id element := 0)" and g = g and opt = opt and it = iteratee
        and element = element] total
    by (auto simp: dfs_def called_ids_def)
  show ?thesis
    using cb cd visit_all_reachable [OF cb(2)] visit_all_reachable [OF cd(2)] by blast
qed

lemma ring_graph_cells:
  "cells ring_graph = [Element (key_of ''A'') [], Element (key_of ''B'') [], Element (key_of ''C'') [],
      Link (key_of ''AB'') (Ref (key_of ''A'')) (Ref (key_of ''B'')) [],
      Link (key_of ''BC'') (Ref (key_of ''B'')) (Ref (key_of ''C'')) [],
      Link (key_of ''CA'') (Ref (key_of ''C'')) (Ref (key_of ''A'')) []]"
  by (simp add: ring_graph_def collection_add_def empty_graph_def)

lemma ring_graph_facts:
  "index_consistent ring_graph" "endpoints_resolve ring_graph"
proof -
  show "index_consistent ring_graph"
    unfolding ring_graph_def index_consistent_iff by (rule index_ok_fold_add [OF index_ok_empty])
  show "endpoints_resolve ring_graph"
    by (simp add: endpoints_resolve_def getCell_def ring_graph_cells)
qed

lemma ring_graph_out:
  "getOutboundEdges ring_graph (key_of ''A'') = [(key_of ''AB'')]"
  "getOutboundEdges ring_graph (key_of ''B'') = [(key_of ''BC'')]"
  by (simp_all add: ring_graph_def collection_add_def empty_graph_def empty_al_def Let_def
      getOutboundEdges_def bucket_def bucket_add_def put_key_def)

lemma ring_neighbors:
  "getNeighbors ring_graph (Element (key_of ''A'') []) outbound_only = Inr [Element (key_of ''B'') []]"
  by (simp add: getNeighbors_def getConnectedLinks_def directions_def outbound_only_def
      addOutbounds_def addEdge_def ring_graph_out neighborsOfLink_def addNeighbor_def
      getCell_def ring_graph_cells isElement_def)

lemma ring_bfs:
  "bfs ring_graph (Element (key_of ''A'') []) stop_at_B outbound_only = Inr [(Element (key_of ''A'') [], 0), (Element (key_of ''B'') [], 1)]"
  by (simp add: bfs_def stop_at_B_def ring_neighbors setDistances_def)

lemma ring_dfs:
  "dfs ring_graph (Element (key_of ''A'') []) stop_at_B outbound_only = Inr [(Element (key_of ''A'') [], 0), (Element (key_of ''B'') [], 1)]"
  by (simp add: dfs_def dfs_loop.simps stop_at_B_def ring_neighbors setDistances_def)

theorem searches_visit_reachable_once_witness:
  "index_consistent ring_graph \<and> endpoints_resolve ring_graph
   \<and> bfs ring_graph (Element (key_of ''A'') []) stop_at_B outbound_only = Inr [(Element (key_of ''A'') [], 0), (Element (key_of ''B'') [], 1)]
   \<and> dfs ring_graph (Element (key_of ''A'') []) stop_at_B outbound_only = Inr [(Element (key_of ''A'') [], 0), (Element (key_of ''B'') [], 1)]
   \<and> visit_ok ring_graph outbound_only (Element (key_of ''A'') []) stop_at_B [(Element (key_of ''A'') [], 0), (Element (key_of ''B'') [], 1)]"
  using ring_graph_facts ring_bfs ring_dfs
    searches_visit_reachable_once [OF ring_graph_facts, of "Element (key_of ''A'') []" stop_at_B outbound_only]
  by auto

section \<open>A search over a link that names no cell\<close>

lemma dangling_graph_cells:
  "cells dangling_graph = [Element (key_of ''A'') [], Element (key_of ''B'') [],
      Link (key_of ''AB'') (Ref (key_of ''A'')) (Ref (key_of ''B'')) [],
      Link (key_of ''AX'') (Ref (key_of ''A'')) (Ref (key_of ''X'')) []]"
  by (simp add: dangling_graph_def collection_add_def empty_graph_def)

lemma dangling_graph_edges:
  "getOutboundEdges dangling_graph (key_of ''A'') = [(key_of ''AB''), (key_of ''AX'')]"
  "getInboundEdges dangling_graph (key_of ''A'') = []"
  by (simp_all add: dangling_graph_def collection_add_def empty_graph_def empty_al_def Let_def
      getOutboundEdges_def getInboundEdges_def bucket_def bucket_add_def put_key_def)

lemma dangling_connected:
  "getConnectedLinks dangling_graph (Element (key_of ''A'') []) default_query =
     [Some (Link (key_of ''AB'') (Ref (key_of ''A'')) (Ref (key_of ''B'')) []), Some (Link (key_of ''AX'') (Ref (key_of ''A'')) (Ref (key_of ''X'')) [])]"
  by (simp add: getConnectedLinks_def directions_def default_query_def addOutbounds_def
      addInbounds_def addEdge_def dangling_graph_edges getCell_def dangling_graph_cells)

lemma dangling_neighbors:
  "getNeighbors dangling_graph (Element (key_of ''A'') []) default_query = Inl TypeError"
  unfolding getNeighbors_def dangling_connected
  by (simp add: neighborsOfLink_def addNeighbor_def directions_def default_query_def getCell_def
      dangling_graph_cells isElement_def)

text \<open>
  Claim C3 speaks of every finite graph: both searches end, call the iteratee once on
  each cell that can be reached, and an answer false keeps the neighbours of that cell
  out of the queue while the rest of the queue is worked off. The graph here holds the
  elements \<open>A\<close> and \<open>B\<close>, the link \<open>AB\<close> from \<open>A\<close> to \<open>B\<close> and the link
  \<open>AX\<close> from \<open>A\<close> to \<open>X\<close>, and no cell \<open>X\<close>. \<open>getNeighbors\<close> of \<open>A\<close> comes to
  the link \<open>AX\<close>, gets \<open>undefined\<close> from \<open>getCell\<close> for \<open>X\<close> and calls
  \<open>isElement()\<close> on it, which throws. So \<open>bfs\<close> and \<open>dfs\<close> from \<open>A\<close>, with an
  iteratee that never answers false, are left by the exception after the call on \<open>A\<close>,
  and \<open>B\<close> is never called. The reducer of \<open>getNeighbors\<close> does test the cell
  (\<open>targetElement &&\<close>), but after the call of \<open>isElement()\<close>; the end of the same
  function, for the source and target cell of a link, tests it before the call.
\<close>

theorem search_aborts_on_dangling_endpoint:
  "getCell dangling_graph (key_of ''A'') = Some (Element (key_of ''A'') [])
   \<and> getCell dangling_graph (key_of ''B'') = Some (Element (key_of ''B'') [])
   \<and> getCell dangling_graph (key_of ''AB'') = Some (Link (key_of ''AB'') (Ref (key_of ''A'')) (Ref (key_of ''B'')) [])
   \<and> getCell dangling_graph (key_of ''AX'') = Some (Link (key_of ''AX'') (Ref (key_of ''A'')) (Ref (key_of ''X'')) [])
   \<and> getCell dangling_graph (key_of ''X'') = None
   \<and> getNeighbors dangling_graph (Element (key_of ''A'') []) default_query = Inl TypeError
   \<and> bfs dangling_graph (Element (key_of ''A'') []) any_cell default_query = Inl TypeError
   \<and> dfs dangling_graph (Element (key_of ''A'') []) any_cell default_query = Inl TypeError"
  by (simp add: getCell_def dangling_graph_cells bfs_def dfs_def dfs_loop.simps any_cell_def
      dangling_neighbors)

section \<open>Synchronising cells\<close>

lemma getCell_startBatch [simp]: "getCell (startBatch n g) i = getCell g i"
  by (simp add: getCell_def startBatch_def)

lemma getCell_stopBatch [simp]: "getCell (stopBatch n g) i = getCell g i"
  by (simp add: getCell_def stopBatch_def)

lemma cells_startBatch [simp]: "cells (startBatch n g) = cells g" "al (startBatch n g) = al g"
  by (simp_all add: startBatch_def)

lemma cells_stopBatch [simp]: "cells (stopBatch n g) = cells g" "al (stopBatch n g) = al g"
  by (simp_all add: stopBatch_def)

lemma index_ok_startBatch [simp]: "index_ok P (startBatch n g) = index_ok P g"
  by (rule index_ok_cong) simp_all

lemma index_ok_stopBatch [simp]: "index_ok P (stopBatch n g) = index_ok P g"
  by (rule index_ok_cong) simp_all










section \<open>Replacing a cell: the merged cell\<close>





lemma notifications_collection [simp]:
  "notifications (collection_add c g) = notifications g"
  "notifications (collection_remove i g) = notifications g"
  "batches (collection_add c g) = batches g"
  "batches (collection_remove i g) = batches g"
  by (simp_all add: collection_add_def collection_remove_def)






section \<open>Synchronising cells: the cell of an incoming cell\<close>

lemma merged_value_Nil [simp]: "merged_value [] a k = map_of a k"
  by (simp add: merged_value_def split: option.splits)





section \<open>What a removal touches\<close>










section \<open>Synchronising cells: the outcome\<close>

lemma acceptable_startBatch [simp]: "acceptable (startBatch n g) ci = acceptable g ci"
  by (simp add: acceptable_def)












end
